theory Spec2Isabelle
  imports Main
begin

section \<open>The close watcher polyfill (src/closewatcher.ts): data model\<close>

text \<open>
  Objects are modelled by their identity. An \<open>InternalCloseWatcher\<close> object is a
  \<open>watcher\<close>; a group (a JavaScript array held in \<open>manager.groups\<close>) is an \<open>array\<close>.
  Arrays are mutable and shared: \<open>processCloseWatchers\<close> keeps a reference to the last
  group while \<open>destroy\<close> mutates it and may unlink it from \<open>manager.groups\<close>.
  The contents of every array therefore live in a store (\<open>elements\<close>), and
  \<open>groups\<close> is the list of references.
\<close>

type_synonym watcher = nat
type_synonym array = nat

text \<open>
  The only fault the file can raise by itself: \<open>manager.groups.at(-1)!.push(this)\<close>
  on an empty \<open>groups\<close> calls \<open>push\<close> on \<open>undefined\<close>.
\<close>

datatype error = TypeError

text \<open>
  A ghost record of what has been called, in order. No function of the model reads it;
  the properties use it to count the calls of the callbacks, and the reachability
  relation to say that an object is constructed once, before its methods are called.
\<close>

datatype call =
    Constructed watcher
  | RequestCloseCalled watcher
  | CancelActionCalled watcher
  | CloseActionCalled watcher

text \<open>
  One record holds everything the file's functions read and write for the global
  \<open>window\<close>:
  \<^item> the fields of the \<open>CloseWatcherManager\<close> of that window (\<open>groups\<close>,
    \<open>allowedNumberOfGroups\<close>, \<open>nextUserInteractionAllowsAnewGroup\<close>). Each
    \<open>new CloseWatcherManager(window)\<close> returns the one registered manager, which starts
    with the field initialisers of the class, see \<open>initial\<close>;
    \<open>allowedNumberOfGroups\<close> is a JavaScript number that starts at one and only ever
    changes by one, so an integer;
  \<^item> \<open>allocated\<close>: how many group arrays \<open>[this]\<close> has created so far, which is the
    identity of the next one;
  \<^item> the fields of every \<open>InternalCloseWatcher\<close>, one map per field
    (\<open>cancelAction\<close>, \<open>closeAction\<close>, \<open>isRunningCancelAction\<close>);
  \<^item> \<open>defaultView\<close>: whether \<open>document.defaultView\<close> is truthy;
  \<^item> \<open>aborted\<close>: whether the \<open>AbortController\<close> of
    \<open>listenForActivationTriggeringInputEvent\<close> has been aborted;
  \<^item> \<open>env\<close>: the state outside this file that the two callbacks read and write.
    The callbacks are functions on \<open>env\<close>: they return (their types are
    \<open>() => boolean\<close> and \<open>() => void\<close>) and they do not call back into the close
    watcher interface. Callbacks that do are the subject of \<open>close_with\<close> and
    \<open>requestClose_with\<close> below.
  Every constructor call of the file leaves the \<open>window\<close> parameter at its default,
  and the methods look the manager up under the global \<open>window\<close>, so a single manager
  is in play.
\<close>

record 'e world =
  groups :: "array list"
  elements :: "array \<Rightarrow> watcher list"
  allocated :: nat
  allowedNumberOfGroups :: int
  nextUserInteractionAllowsAnewGroup :: bool
  cancelAction :: "watcher \<Rightarrow> 'e \<Rightarrow> bool \<times> 'e"
  closeAction :: "watcher \<Rightarrow> 'e \<Rightarrow> 'e"
  isRunningCancelAction :: "watcher \<Rightarrow> bool"
  defaultView :: bool
  aborted :: bool
  env :: 'e
  calls :: "call list"

text \<open>
  The state before the first call: the field initialisers of \<open>CloseWatcherManager\<close>,
  no array allocated, no watcher constructed.
\<close>

definition initial :: "'e \<Rightarrow> bool \<Rightarrow> 'e world" where
  "initial e dv =
     \<lparr> groups = [], elements = (\<lambda>_. []), allocated = 0,
       allowedNumberOfGroups = 1, nextUserInteractionAllowsAnewGroup = True,
       cancelAction = (\<lambda>_ x. (True, x)), closeAction = (\<lambda>_ x. x),
       isRunningCancelAction = (\<lambda>_. False),
       defaultView = dv, aborted = False, env = e, calls = [] \<rparr>"

text \<open>\<open>manager.groups\<close> as nested lists: what an observer of the manager sees.\<close>

definition group_view :: "'e world \<Rightarrow> watcher list list" where
  "group_view s = map (elements s) (groups s)"

section \<open>InternalCloseWatcher\<close>

text \<open>
  The constructor (lines 35 to 47). \<open>this\<close> is the identity of the object under
  construction. \<open>[this]\<close> allocates a new array, whose identity is the counter
  \<open>allocated\<close>.
\<close>

definition InternalCloseWatcher ::
  "('e \<Rightarrow> bool \<times> 'e) \<Rightarrow> ('e \<Rightarrow> 'e) \<Rightarrow> watcher \<Rightarrow> 'e world \<Rightarrow> error + 'e world" where
  "InternalCloseWatcher cancel closing this s =
     (let s0 = s\<lparr> cancelAction := (cancelAction s)(this := cancel),
                   closeAction := (closeAction s)(this := closing),
                   isRunningCancelAction := (isRunningCancelAction s)(this := False),
                   calls := calls s @ [Constructed this] \<rparr>
      in if int (length (groups s0)) < allowedNumberOfGroups s0 then
           Inr (s0\<lparr> groups := groups s0 @ [allocated s0],
                     elements := (elements s0)(allocated s0 := [this]),
                     allocated := allocated s0 + 1 \<rparr>)
         else if groups s0 = [] then Inl TypeError
         else Inr (s0\<lparr> elements := (elements s0)
                     (last (groups s0) := elements s0 (last (groups s0)) @ [this]) \<rparr>))"

text \<open>The getter \<open>isActive\<close> (lines 49 to 55).\<close>

definition isActive :: "watcher \<Rightarrow> 'e world \<Rightarrow> bool" where
  "isActive this s = list_ex (\<lambda>group. this \<in> set (elements s group)) (groups s)"

text \<open>
  \<open>destroy\<close> (lines 57 to 65). The \<open>for ... of\<close> loop walks \<open>manager.groups\<close> by
  index while its body removes entries from the same array, so the index \<open>i\<close> is
  explicit: after a removal at \<open>i\<close> the next iteration reads index \<open>i + 1\<close> of the
  shortened array. \<open>splice(indexOf(x), 1)\<close> removes the first occurrence of \<open>x\<close>.
\<close>

function destroy_loop :: "watcher \<Rightarrow> nat \<Rightarrow> 'e world \<Rightarrow> 'e world" where
  "destroy_loop this i s =
     (if i < length (groups s) then
        (let group = groups s ! i;
             s1 = (if this \<in> set (elements s group)
                   then s\<lparr> elements := (elements s)(group := remove1 this (elements s group)) \<rparr>
                   else s);
             s2 = (if elements s1 group = []
                   then s1\<lparr> groups := remove1 group (groups s1) \<rparr>
                   else s1)
         in destroy_loop this (i + 1) s2)
      else s)"
  by pat_completeness auto
termination
  by (relation "measure (\<lambda>(this, i, s). length (groups s) - i)")
     (auto simp: length_remove1)

definition destroy :: "watcher \<Rightarrow> 'e world \<Rightarrow> 'e world" where
  "destroy this s = destroy_loop this 0 s"

text \<open>\<open>close\<close> (lines 68 to 73).\<close>

definition close :: "watcher \<Rightarrow> 'e world \<Rightarrow> 'e world" where
  "close this s =
     (if isActive this s \<and> defaultView s then
        (let s1 = destroy this s
         in s1\<lparr> env := closeAction s1 this (env s1),
                 calls := calls s1 @ [CloseActionCalled this] \<rparr>)
      else s)"

text \<open>\<open>requestClose\<close> (lines 76 to 86): the returned boolean and the new state.\<close>

definition requestClose :: "watcher \<Rightarrow> 'e world \<Rightarrow> bool \<times> 'e world" where
  "requestClose this s0 =
     (let s = s0\<lparr> calls := calls s0 @ [RequestCloseCalled this] \<rparr>
      in if isActive this s \<and> \<not> isRunningCancelAction s this then
           (let s1 = s\<lparr> isRunningCancelAction := (isRunningCancelAction s)(this := True) \<rparr>;
                r = cancelAction s1 this (env s1);
                s2 = s1\<lparr> env := snd r, calls := calls s1 @ [CancelActionCalled this] \<rparr>
            in (True, if \<not> fst r then close this s2 else s2))
         else (True, s))"

declare destroy_loop.simps [simp del]

lemma destroy_loop_length:
  "length (elements (destroy_loop this i s) g) \<le> length (elements s g)"
proof (induction this i s rule: destroy_loop.induct)
  case (1 this i s)
  show ?case
  proof (cases "i < length (groups s)")
    case False
    then show ?thesis by (simp add: destroy_loop.simps [of this i s])
  next
    case True
    define group where "group = groups s ! i"
    define s1 where "s1 = (if this \<in> set (elements s group)
        then s\<lparr> elements := (elements s)(group := remove1 this (elements s group)) \<rparr> else s)"
    define s2 where "s2 = (if elements s1 group = []
        then s1\<lparr> groups := remove1 group (groups s1) \<rparr> else s1)"
    have step: "destroy_loop this i s = destroy_loop this (i + 1) s2"
      using True by (simp add: destroy_loop.simps [of this i s] Let_def s2_def s1_def group_def)
    have "length (elements (destroy_loop this (i + 1) s2) g) \<le> length (elements s2 g)"
      using "1.IH" [OF True group_def s1_def s2_def] .
    moreover have "length (elements s2 g) \<le> length (elements s g)"
      by (simp add: s2_def s1_def length_remove1)
    ultimately show ?thesis using step by simp
  qed
qed

lemma close_length:
  "length (elements (close this s) g) \<le> length (elements s g)"
  by (simp add: close_def Let_def destroy_def destroy_loop_length)

lemma requestClose_length:
  "length (elements (snd (requestClose this s)) g) \<le> length (elements s g)"
proof -
  note c = close_length [of this _ g]
  show ?thesis
    using c [of "s\<lparr> calls := calls s @ [RequestCloseCalled this],
        isRunningCancelAction := (isRunningCancelAction s)(this := True),
        env := snd (cancelAction s this (env s)),
        calls := calls s @ [RequestCloseCalled this, CancelActionCalled this] \<rparr>"]
    by (simp add: requestClose_def Let_def)
qed

section \<open>The dispatcher\<close>

text \<open>
  \<open>processCloseWatchers\<close> (lines 19 to 30). \<open>Array.prototype.reverse\<close> reverses the
  array in place and returns the same array, so the last group itself is reversed and is
  the array the loop walks. The array iterator reads the length and the element at its
  index anew at every step: \<open>watchers_loop latest i processed s\<close> is the loop from
  index \<open>i\<close> on, with \<open>processed\<close> the value of \<open>processedACloseWatcher\<close> so far.
\<close>

function watchers_loop :: "array \<Rightarrow> nat \<Rightarrow> bool \<Rightarrow> 'e world \<Rightarrow> bool \<times> 'e world" where
  "watchers_loop latest i processed s =
     (if i < length (elements s latest) then
        (let closeWatcher = elements s latest ! i;
             r = requestClose closeWatcher s
         in if \<not> fst r then (True, snd r)
            else watchers_loop latest (i + 1) True (snd r))
      else (processed, s))"
  by pat_completeness auto
termination
proof (relation "measure (\<lambda>(latest, i, processed, s). length (elements s latest) - i)")
  show "wf (measure (\<lambda>(latest, i, processed, s). length (elements s latest) - i))"
    by simp
next
  fix latest :: array and i :: nat and processed :: bool and s :: "'e world"
    and closeWatcher r
  assume "i < length (elements s latest)" and "closeWatcher = elements s latest ! i"
    and "r = requestClose closeWatcher s"
  then show "((latest, i + 1, True, snd r), latest, i, processed, s)
      \<in> measure (\<lambda>(latest, i, processed, s). length (elements s latest) - i)"
    using requestClose_length [of closeWatcher s latest] by simp
qed

declare watchers_loop.simps [simp del]

definition processCloseWatchers :: "'e world \<Rightarrow> bool \<times> 'e world" where
  "processCloseWatchers s =
     (let r = (if length (groups s) > 0 then
                 (let latest = last (groups s);
                      s' = s\<lparr> elements := (elements s)(latest := rev (elements s latest)) \<rparr>
                  in watchers_loop latest 0 False s')
               else (False, s));
          s1 = snd r;
          s2 = (if allowedNumberOfGroups s1 > 1
                then s1\<lparr> allowedNumberOfGroups := allowedNumberOfGroups s1 - 1 \<rparr>
                else s1)
      in (fst r, s2))"

section \<open>User activation\<close>

text \<open>
  An input event as \<open>notify\<close> (lines 141 to 151) reads it: the interface it is an
  instance of, with \<open>key\<close> for a \<open>KeyboardEvent\<close> and \<open>pointerType\<close> for a
  \<open>PointerEvent\<close>, and \<open>isTrusted\<close>.
\<close>

datatype event_interface = KeyboardEvent string | PointerEvent string | OtherEvent

record event =
  interface :: event_interface
  isTrusted :: bool

definition notify :: "event \<Rightarrow> 'e world \<Rightarrow> 'e world" where
  "notify e s =
     (if (case interface e of KeyboardEvent key \<Rightarrow> key = ''Esc'' | _ \<Rightarrow> False) then s
      else if (case interface e of PointerEvent pointerType \<Rightarrow> pointerType = ''mouse'' | _ \<Rightarrow> False)
      then s
      else if isTrusted e then
        (let s1 = (if nextUserInteractionAllowsAnewGroup s
                   then s\<lparr> allowedNumberOfGroups := allowedNumberOfGroups s + 1 \<rparr>
                   else s)
         in s1\<lparr> nextUserInteractionAllowsAnewGroup := False, aborted := True \<rparr>)
      else s)"

text \<open>
  The listeners are registered with the controller's signal, so the document delivers
  an input event to \<open>notify\<close> only until the controller is aborted.
\<close>

definition input_event :: "event \<Rightarrow> 'e world \<Rightarrow> 'e world" where
  "input_event e s = (if aborted s then s else notify e s)"

section \<open>Callbacks that call the interface\<close>

text \<open>
  The callbacks of the public \<open>CloseWatcher\<close> (lines 120 and 121) dispatch an event,
  whose listeners are the caller's own code: a listener can call \<open>destroy\<close>,
  \<open>close\<close> or \<open>requestClose\<close> of a watcher while \<open>requestClose\<close> is running. Such a
  closure is a function on the whole state, which the record cannot hold (a state would
  contain functions on states). \<open>close_with\<close> and \<open>requestClose_with\<close> are \<open>close\<close>
  (lines 68 to 73) and \<open>requestClose\<close> (lines 76 to 86) again, with
  \<open>this.closeAction\<close> and \<open>this.cancelAction\<close> given as such functions; the ghost record
  notes a call before the closure runs. For closures that only act on \<open>env\<close> they are
  \<open>close\<close> and \<open>requestClose\<close> (lemma \<open>requestClose_with_on_env\<close>).
\<close>

definition close_with :: "('e world \<Rightarrow> 'e world) \<Rightarrow> watcher \<Rightarrow> 'e world \<Rightarrow> 'e world" where
  "close_with closing this s =
     (if isActive this s \<and> defaultView s then
        (let s1 = destroy this s
         in closing (s1\<lparr> calls := calls s1 @ [CloseActionCalled this] \<rparr>))
      else s)"

definition requestClose_with ::
  "('e world \<Rightarrow> bool \<times> 'e world) \<Rightarrow> ('e world \<Rightarrow> 'e world) \<Rightarrow> watcher \<Rightarrow> 'e world
    \<Rightarrow> bool \<times> 'e world" where
  "requestClose_with cancel closing this s0 =
     (let s = s0\<lparr> calls := calls s0 @ [RequestCloseCalled this] \<rparr>
      in if isActive this s \<and> \<not> isRunningCancelAction s this then
           (let s1 = s\<lparr> isRunningCancelAction := (isRunningCancelAction s)(this := True),
                         calls := calls s @ [CancelActionCalled this] \<rparr>;
                r = cancel s1
            in (True, if \<not> fst r then close_with closing this (snd r) else snd r))
         else (True, s))"

section \<open>Reachable states and their invariant\<close>

text \<open>
  The data model's invariant on the groups: a group array is linked at most once, no
  linked group is empty, and a watcher occurs at most once, in at most one group.
\<close>

definition tidy :: "'e world \<Rightarrow> bool" where
  "tidy s \<longleftrightarrow>
     distinct (groups s) \<and>
     (\<forall>g \<in> set (groups s). elements s g \<noteq> [] \<and> distinct (elements s g)) \<and>
     (\<forall>g \<in> set (groups s). \<forall>h \<in> set (groups s).
        g \<noteq> h \<longrightarrow> set (elements s g) \<inter> set (elements s h) = {})"

text \<open>
  What \<open>destroy\<close> comes to when \<open>this\<close> is in the group \<open>g\<close>: it is removed from
  \<open>g\<close>, and \<open>g\<close> is unlinked from \<open>manager.groups\<close> when that empties it.
\<close>

definition unlinked :: "watcher \<Rightarrow> array \<Rightarrow> 'e world \<Rightarrow> 'e world" where
  "unlinked this g s =
     s\<lparr> groups := (if remove1 this (elements s g) = [] then remove1 g (groups s) else groups s),
        elements := (elements s)(g := remove1 this (elements s g)) \<rparr>"

text \<open>
  What holds in every state the file can reach: the groups are tidy, linked arrays have
  been allocated, the allowed number of groups is at least one, only constructed
  watchers are active or guarded, \<open>cancelAction\<close> has been called at most once per
  watcher, which then has its guard set, and \<open>manager.groups\<close> lists the groups in the
  order of their creation (the identity of an array is its allocation number).
\<close>

definition invariant :: "'e world \<Rightarrow> bool" where
  "invariant s \<longleftrightarrow>
     tidy s \<and>
     (\<forall>g \<in> set (groups s). g < allocated s) \<and>
     1 \<le> allowedNumberOfGroups s \<and>
     (\<forall>w. isActive w s \<longrightarrow> Constructed w \<in> set (calls s)) \<and>
     (\<forall>w. isRunningCancelAction s w \<longrightarrow> Constructed w \<in> set (calls s)) \<and>
     (\<forall>w. CancelActionCalled w \<in> set (calls s) \<longrightarrow> isRunningCancelAction s w) \<and>
     (\<forall>w. count_list (calls s) (CancelActionCalled w) \<le> 1) \<and>
     sorted (groups s)"

text \<open>
  One step of the outside world: constructing a watcher (a new object, so one that has
  not been constructed before), calling a method of a constructed watcher, a dismissal,
  an input event, the document gaining or losing its view, and any change of the state
  outside this file.
\<close>

inductive step :: "'e world \<Rightarrow> 'e world \<Rightarrow> bool" where
  construct: "Constructed this \<notin> set (calls s) \<Longrightarrow>
      InternalCloseWatcher cancel closing this s = Inr s' \<Longrightarrow> step s s'"
| destroy: "Constructed this \<in> set (calls s) \<Longrightarrow> step s (destroy this s)"
| close: "Constructed this \<in> set (calls s) \<Longrightarrow> step s (close this s)"
| requestClose: "Constructed this \<in> set (calls s) \<Longrightarrow> step s (snd (requestClose this s))"
| dismissal: "step s (snd (processCloseWatchers s))"
| input: "step s (input_event e s)"
| document: "step s (s\<lparr> defaultView := dv \<rparr>)"
| outside: "step s (s\<lparr> env := x \<rparr>)"

inductive reachable :: "'e world \<Rightarrow> bool" where
  start: "reachable (initial x dv)"
| step: "reachable s \<Longrightarrow> step s s' \<Longrightarrow> reachable s'"

text \<open>
  The state in which \<open>requestClose\<close> leaves an active, unguarded watcher after its
  \<open>cancelAction\<close> has returned and before \<open>close\<close> is considered.
\<close>

definition cancelled :: "watcher \<Rightarrow> 'e world \<Rightarrow> 'e world" where
  "cancelled this s =
     s\<lparr> isRunningCancelAction := (isRunningCancelAction s)(this := True),
        env := snd (cancelAction s this (env s)),
        calls := calls s @ [RequestCloseCalled this, CancelActionCalled this] \<rparr>"

section \<open>Vocabulary of the properties\<close>

text \<open>
  A sequence of registrations: the constructor called for each entry in turn, stopping
  at the first fault.
\<close>

fun construct_all ::
  "(watcher \<times> ('e \<Rightarrow> bool \<times> 'e) \<times> ('e \<Rightarrow> 'e)) list \<Rightarrow> 'e world \<Rightarrow> error + 'e world" where
  "construct_all [] s = Inr s"
| "construct_all ((this, cancel, closing) # rest) s =
     (case InternalCloseWatcher cancel closing this s of
        Inl e \<Rightarrow> Inl e
      | Inr s' \<Rightarrow> construct_all rest s')"

text \<open>The watchers on which \<open>requestClose\<close> was called, in the order of the calls.\<close>

fun requested :: "call list \<Rightarrow> watcher list" where
  "requested [] = []"
| "requested (RequestCloseCalled w # cs) = w # requested cs"
| "requested (_ # cs) = requested cs"

text \<open>
  An input event that passes the three tests of \<open>notify\<close>: it is trusted, it is not a
  keyboard event with key \<open>Esc\<close>, and it is not a pointer event of a mouse.
\<close>

definition qualifying :: "event \<Rightarrow> bool" where
  "qualifying e \<longleftrightarrow>
     isTrusted e \<and> interface e \<noteq> KeyboardEvent ''Esc'' \<and> interface e \<noteq> PointerEvent ''mouse''"

text \<open>
  The running example: watcher \<open>0\<close> (A) is registered, then watcher \<open>1\<close> (B), in a fresh
  window whose document has a view iff \<open>dv\<close>. A's \<open>cancelAction\<close> returns \<open>a\<close>, B's returns
  \<open>b\<close>; the environment counts the \<open>closeAction\<close> calls. Both land in one group:
  \<open>groups = [[A, B]]\<close>.
\<close>

definition answer :: "bool \<Rightarrow> 'e \<Rightarrow> bool \<times> 'e" where
  "answer b x = (b, x)"

definition two_watchers :: "bool \<Rightarrow> bool \<Rightarrow> bool \<Rightarrow> nat world" where
  "two_watchers dv a b =
     \<lparr> groups = [0], elements = (\<lambda>_. [])(0 := [0, 1]), allocated = 1,
       allowedNumberOfGroups = 1, nextUserInteractionAllowsAnewGroup = True,
       cancelAction = (\<lambda>_ x. (True, x))(0 := answer a, 1 := answer b),
       closeAction = (\<lambda>_ x. x)(0 := Suc, 1 := Suc),
       isRunningCancelAction = (\<lambda>_. False),
       defaultView = dv, aborted = False, env = 0, calls = [Constructed 0, Constructed 1] \<rparr>"

text \<open>A trusted \<open>touchend\<close> event: neither a keyboard nor a pointer event.\<close>

definition touch :: event where
  "touch = \<lparr> interface = OtherEvent, isTrusted = True \<rparr>"

text \<open>
  Closures for \<open>close_with\<close> and \<open>requestClose_with\<close>: one that acts on the outside
  state only; a \<open>cancelAction\<close> whose listener calls \<open>preventDefault()\<close> and the
  watcher's \<open>destroy()\<close>, so that \<open>dispatchEvent\<close> returns false; and one whose listener
  calls the watcher's \<open>close()\<close> and does not prevent the default, so that it returns
  true.
\<close>

definition on_env_cancel :: "('e \<Rightarrow> bool \<times> 'e) \<Rightarrow> 'e world \<Rightarrow> bool \<times> 'e world" where
  "on_env_cancel c s = (fst (c (env s)), s\<lparr> env := snd (c (env s)) \<rparr>)"

definition on_env_close :: "('e \<Rightarrow> 'e) \<Rightarrow> 'e world \<Rightarrow> 'e world" where
  "on_env_close c s = s\<lparr> env := c (env s) \<rparr>"

definition prevent_and_destroy :: "watcher \<Rightarrow> 'e world \<Rightarrow> bool \<times> 'e world" where
  "prevent_and_destroy w s = (False, destroy w s)"

definition close_in_listener ::
  "('e world \<Rightarrow> 'e world) \<Rightarrow> watcher \<Rightarrow> 'e world \<Rightarrow> bool \<times> 'e world" where
  "close_in_listener closing w s = (True, close_with closing w s)"

text \<open>
  The state in which \<open>requestClose_with\<close> calls \<open>cancelAction\<close> (the guard set, the
  two calls recorded), and the state in which \<open>close_with\<close> calls \<open>closeAction\<close> (the
  watcher destroyed, the call recorded).
\<close>

definition asked :: "watcher \<Rightarrow> 'e world \<Rightarrow> 'e world" where
  "asked this s =
     s\<lparr> isRunningCancelAction := (isRunningCancelAction s)(this := True),
        calls := calls s @ [RequestCloseCalled this, CancelActionCalled this] \<rparr>"

definition removed :: "watcher \<Rightarrow> 'e world \<Rightarrow> 'e world" where
  "removed this s = (destroy this s)\<lparr> calls := calls s @ [CloseActionCalled this] \<rparr>"

section \<open>Lemmas on the model\<close>

lemma isActive_iff: "isActive this s \<longleftrightarrow> (\<exists>g \<in> set (groups s). this \<in> set (elements s g))"
  by (simp add: isActive_def list_ex_iff)

lemma nth_in_drop: "i < length xs \<Longrightarrow> xs ! i \<in> set (drop i xs)"
  by (metis Cons_nth_drop_Suc list.set_intros(1))

lemma nth_notin_drop_Suc:
  "distinct xs \<Longrightarrow> k < length xs \<Longrightarrow> xs ! k \<notin> set (drop (Suc k) xs)"
proof -
  assume d: "distinct xs" and k: "k < length xs"
  have "xs = take k xs @ xs ! k # drop (Suc k) xs"
    using k by (rule id_take_nth_drop)
  then have "distinct (take k xs @ xs ! k # drop (Suc k) xs)"
    using d by simp
  then show ?thesis by simp
qed

lemma in_remove1D: "x \<in> set (remove1 y xs) \<Longrightarrow> x \<in> set xs"
  by (metis notin_set_remove1)

lemma destroy_loop_frame:
  "\<exists>G E. destroy_loop this i s = s\<lparr> groups := G, elements := E \<rparr>"
proof (induction this i s rule: destroy_loop.induct)
  case (1 this i s)
  show ?case
  proof (cases "i < length (groups s)")
    case False
    have "s = s\<lparr> groups := groups s, elements := elements s \<rparr>" by simp
    then show ?thesis
      using False by (metis destroy_loop.simps)
  next
    case True
    define group where "group = groups s ! i"
    define s1 where "s1 = (if this \<in> set (elements s group)
        then s\<lparr> elements := (elements s)(group := remove1 this (elements s group)) \<rparr> else s)"
    define s2 where "s2 = (if elements s1 group = []
        then s1\<lparr> groups := remove1 group (groups s1) \<rparr> else s1)"
    have step: "destroy_loop this i s = destroy_loop this (i + 1) s2"
      using True by (simp add: destroy_loop.simps [of this i s] Let_def s2_def s1_def group_def)
    obtain G E where "destroy_loop this (i + 1) s2 = s2\<lparr> groups := G, elements := E \<rparr>"
      using "1.IH" [OF True group_def s1_def s2_def] by blast
    moreover have "s2\<lparr> groups := G, elements := E \<rparr> = s\<lparr> groups := G, elements := E \<rparr>"
      by (simp add: s2_def s1_def)
    ultimately show ?thesis using step by metis
  qed
qed

lemma destroy_loop_skip:
  "\<forall>g \<in> set (drop i (groups s)). this \<notin> set (elements s g) \<and> elements s g \<noteq> []
   \<Longrightarrow> destroy_loop this i s = s"
proof (induction "length (groups s) - i" arbitrary: i)
  case 0
  then show ?case by (simp add: destroy_loop.simps [of this i s])
next
  case (Suc n)
  then have lt: "i < length (groups s)" by simp
  have here: "this \<notin> set (elements s (groups s ! i)) \<and> elements s (groups s ! i) \<noteq> []"
    using Suc.prems nth_in_drop [OF lt] by blast
  have rest: "\<forall>g \<in> set (drop (i + 1) (groups s)). this \<notin> set (elements s g) \<and> elements s g \<noteq> []"
    using Suc.prems set_drop_subset_set_drop [of i "i + 1" "groups s"] by auto
  have "destroy_loop this i s = destroy_loop this (i + 1) s"
    using lt here by (simp add: destroy_loop.simps [of this i s] Let_def)
  also have "\<dots> = s"
    using Suc.hyps(1) [of "i + 1"] Suc.hyps(2) rest by simp
  finally show ?case .
qed

lemma destroy_loop_at:
  assumes "tidy s" and "k < length (groups s)" and "this \<in> set (elements s (groups s ! k))"
    and "i \<le> k"
  shows "destroy_loop this i s = unlinked this (groups s ! k) s"
  using assms(4)
proof (induction "k - i" arbitrary: i)
  case 0
  then have ik: "i = k" by simp
  let ?g = "groups s ! k"
  let ?s1 = "s\<lparr> elements := (elements s)(?g := remove1 this (elements s ?g)) \<rparr>"
  have gin: "?g \<in> set (groups s)" using assms(2) by simp
  have others: "\<And>h. h \<in> set (groups s) \<Longrightarrow> h \<noteq> ?g \<Longrightarrow>
      this \<notin> set (elements s h) \<and> elements s h \<noteq> []"
    using assms(1,3) gin unfolding tidy_def by blast
  show ?case
  proof (cases "remove1 this (elements s ?g) = []")
    case True
    let ?s2 = "?s1\<lparr> groups := remove1 ?g (groups s) \<rparr>"
    have "destroy_loop this k s = destroy_loop this (k + 1) ?s2"
      using assms(2,3) True by (simp add: destroy_loop.simps [of this k s] Let_def)
    moreover have "destroy_loop this (k + 1) ?s2 = ?s2"
    proof (rule destroy_loop_skip, rule ballI)
      fix h assume "h \<in> set (drop (k + 1) (groups ?s2))"
      then have "h \<in> set (remove1 ?g (groups s))"
        using in_set_dropD by fastforce
      then have "h \<in> set (groups s)" and "h \<noteq> ?g"
        using assms(1) unfolding tidy_def by (auto dest: in_remove1D)
      then show "this \<notin> set (elements ?s2 h) \<and> elements ?s2 h \<noteq> []"
        using others by simp
    qed
    ultimately show ?thesis using True ik by (simp add: unlinked_def)
  next
    case False
    have "destroy_loop this k s = destroy_loop this (k + 1) ?s1"
      using assms(2,3) False by (simp add: destroy_loop.simps [of this k s] Let_def)
    moreover have "destroy_loop this (k + 1) ?s1 = ?s1"
    proof (rule destroy_loop_skip, rule ballI)
      fix h assume "h \<in> set (drop (k + 1) (groups ?s1))"
      then have h: "h \<in> set (drop (Suc k) (groups s))" by simp
      then have "h \<in> set (groups s)" by (rule in_set_dropD)
      moreover have "h \<noteq> ?g"
        using h nth_notin_drop_Suc [OF _ assms(2)] assms(1) unfolding tidy_def by blast
      ultimately show "this \<notin> set (elements ?s1 h) \<and> elements ?s1 h \<noteq> []"
        using others by simp
    qed
    ultimately show ?thesis using False ik by (simp add: unlinked_def)
  qed
next
  case (Suc n)
  then have ik: "i < k" by simp
  then have il: "i < length (groups s)" using assms(2) by simp
  have "groups s ! i \<noteq> groups s ! k"
    using assms(1,2) ik il unfolding tidy_def by (simp add: nth_eq_iff_index_eq)
  then have "this \<notin> set (elements s (groups s ! i)) \<and> elements s (groups s ! i) \<noteq> []"
    using assms(1,2,3) il unfolding tidy_def by (meson disjoint_iff nth_mem)
  then have "destroy_loop this i s = destroy_loop this (i + 1) s"
    using il by (simp add: destroy_loop.simps [of this i s] Let_def)
  also have "\<dots> = unlinked this (groups s ! k) s"
    using Suc.hyps(1) [of "i + 1"] Suc.hyps(2) ik by simp
  finally show ?case .
qed

lemma destroy_active:
  "tidy s \<Longrightarrow> g \<in> set (groups s) \<Longrightarrow> this \<in> set (elements s g)
   \<Longrightarrow> destroy this s = unlinked this g s"
  unfolding destroy_def by (metis in_set_conv_nth destroy_loop_at le0)

lemma destroy_inactive:
  "\<forall>g \<in> set (groups s). elements s g \<noteq> [] \<Longrightarrow> \<not> isActive this s \<Longrightarrow> destroy this s = s"
  unfolding destroy_def by (rule destroy_loop_skip) (auto simp: isActive_iff dest: in_set_dropD)

lemma tidy_unlinked:
  assumes "tidy s" and "g \<in> set (groups s)"
  shows "tidy (unlinked this g s)"
proof -
  let ?E = "(elements s)(g := remove1 this (elements s g))"
  let ?G = "if remove1 this (elements s g) = [] then remove1 g (groups s) else groups s"
  have sub: "set ?G \<subseteq> set (groups s)"
    by (auto dest: in_remove1D)
  have gone: "remove1 this (elements s g) = [] \<Longrightarrow> g \<notin> set ?G"
    using assms(1) unfolding tidy_def by simp
  have subE: "\<And>h. set (?E h) \<subseteq> set (elements s h)"
    by (auto dest: in_remove1D)
  have 1: "distinct ?G"
    using assms(1) unfolding tidy_def by simp
  have 2: "\<forall>h \<in> set ?G. ?E h \<noteq> [] \<and> distinct (?E h)"
  proof
    fix h assume h: "h \<in> set ?G"
    then have "h \<in> set (groups s)" using sub by blast
    then have "elements s h \<noteq> [] \<and> distinct (elements s h)"
      using assms(1) unfolding tidy_def by blast
    then show "?E h \<noteq> [] \<and> distinct (?E h)"
      using h gone by (cases "h = g") auto
  qed
  have 3: "\<forall>h \<in> set ?G. \<forall>h' \<in> set ?G. h \<noteq> h' \<longrightarrow> set (?E h) \<inter> set (?E h') = {}"
  proof (intro ballI impI)
    fix h h' assume "h \<in> set ?G" and "h' \<in> set ?G" and "h \<noteq> h'"
    then have "set (elements s h) \<inter> set (elements s h') = {}"
      using assms(1) sub unfolding tidy_def by blast
    then show "set (?E h) \<inter> set (?E h') = {}"
      using subE [of h] subE [of h'] by blast
  qed
  show ?thesis
    unfolding tidy_def unlinked_def using 1 2 3 by simp
qed

lemma tidy_destroy: "tidy s \<Longrightarrow> tidy (destroy this s)"
proof (cases "isActive this s")
  case True
  assume t: "tidy s"
  from True obtain g where "g \<in> set (groups s)" and "this \<in> set (elements s g)"
    by (auto simp: isActive_iff)
  then show ?thesis using t by (simp add: destroy_active tidy_unlinked)
next
  case False
  assume "tidy s"
  then show ?thesis using False by (simp add: destroy_inactive tidy_def)
qed

lemma isActive_unlinked:
  assumes "tidy s" and "g \<in> set (groups s)" and "this \<in> set (elements s g)"
  shows "isActive w (unlinked this g s) \<longleftrightarrow> w \<noteq> this \<and> isActive w s"
proof
  let ?E = "(elements s)(g := remove1 this (elements s g))"
  let ?G = "if remove1 this (elements s g) = [] then remove1 g (groups s) else groups s"
  assume "isActive w (unlinked this g s)"
  then obtain h where "h \<in> set (groups (unlinked this g s))"
      and "w \<in> set (elements (unlinked this g s) h)"
    unfolding isActive_iff by blast
  then have h: "h \<in> set ?G" and w: "w \<in> set (?E h)"
    by (simp_all add: unlinked_def)
  have hin: "h \<in> set (groups s)" using h by (auto dest: in_remove1D split: if_splits)
  show "w \<noteq> this \<and> isActive w s"
  proof (cases "h = g")
    case True
    then have "w \<in> set (remove1 this (elements s g))" using w by simp
    moreover have "distinct (elements s g)" using assms(1,2) unfolding tidy_def by blast
    ultimately show ?thesis using assms(2) by (auto simp: isActive_iff)
  next
    case False
    then have "w \<in> set (elements s h)" using w by simp
    moreover have "set (elements s h) \<inter> set (elements s g) = {}"
      using assms(1,2) hin False unfolding tidy_def by blast
    ultimately show ?thesis using assms(3) hin by (auto simp: isActive_iff)
  qed
next
  assume a: "w \<noteq> this \<and> isActive w s"
  then obtain h where hin: "h \<in> set (groups s)" and w: "w \<in> set (elements s h)"
    by (auto simp: isActive_iff)
  show "isActive w (unlinked this g s)"
  proof (cases "h = g")
    case True
    then have "w \<in> set (remove1 this (elements s g))" using w a by simp
    then show ?thesis using assms(2) by (auto simp: isActive_iff unlinked_def)
  next
    case False
    then show ?thesis using hin w by (auto simp: isActive_iff unlinked_def)
  qed
qed

lemma isActive_destroy:
  assumes "tidy s"
  shows "isActive w (destroy this s) \<longleftrightarrow> w \<noteq> this \<and> isActive w s"
proof (cases "isActive this s")
  case True
  then obtain g where "g \<in> set (groups s)" and "this \<in> set (elements s g)"
    by (auto simp: isActive_iff)
  then show ?thesis using assms by (simp add: destroy_active isActive_unlinked)
next
  case False
  then have "destroy this s = s" using assms by (simp add: destroy_inactive tidy_def)
  then show ?thesis using False by auto
qed

lemma view_unlinked:
  assumes "tidy s" and "g \<in> set (groups s)" and "this \<in> set (elements s g)"
  shows "group_view (unlinked this g s)
       = filter (\<lambda>ws. ws \<noteq> []) (map (remove1 this) (group_view s))"
proof -
  let ?E = "(elements s)(g := remove1 this (elements s g))"
  have others: "\<And>h. h \<in> set (groups s) \<Longrightarrow> h \<noteq> g \<Longrightarrow>
      remove1 this (elements s h) = elements s h \<and> elements s h \<noteq> []"
  proof -
    fix h assume "h \<in> set (groups s)" and "h \<noteq> g"
    then have "this \<notin> set (elements s h) \<and> elements s h \<noteq> []"
      using assms unfolding tidy_def by blast
    then show "remove1 this (elements s h) = elements s h \<and> elements s h \<noteq> []"
      by (simp add: remove1_idem)
  qed
  have d: "distinct (groups s)" using assms(1) unfolding tidy_def by blast
  show ?thesis
  proof (cases "remove1 this (elements s g) = []")
    case True
    have "filter (\<lambda>ws. ws \<noteq> []) (map (remove1 this) (group_view s))
        = map (\<lambda>h. remove1 this (elements s h))
            (filter (\<lambda>h. remove1 this (elements s h) \<noteq> []) (groups s))"
      by (simp add: group_view_def filter_map comp_def)
    also have "filter (\<lambda>h. remove1 this (elements s h) \<noteq> []) (groups s)
        = filter (\<lambda>h. h \<noteq> g) (groups s)"
    proof (intro filter_cong refl)
      fix h assume "h \<in> set (groups s)"
      then show "(remove1 this (elements s h) \<noteq> []) = (h \<noteq> g)"
        using True others [of h] by (cases "h = g") auto
    qed
    also have "\<dots> = remove1 g (groups s)"
      using d by (simp add: distinct_remove1_removeAll removeAll_filter_not_eq) metis
    also have "map (\<lambda>h. remove1 this (elements s h)) (remove1 g (groups s))
        = map ?E (remove1 g (groups s))"
    proof (intro map_cong refl)
      fix h assume "h \<in> set (remove1 g (groups s))"
      then have "h \<in> set (groups s)" and "h \<noteq> g"
        using d by (auto dest: in_remove1D)
      then show "remove1 this (elements s h) = ?E h"
        using others [of h] by simp
    qed
    finally show ?thesis using True by (simp add: unlinked_def group_view_def)
  next
    case False
    have "filter (\<lambda>ws. ws \<noteq> []) (map (remove1 this) (group_view s))
        = map (remove1 this) (group_view s)"
    proof (intro filter_True ballI)
      fix ws assume "ws \<in> set (map (remove1 this) (group_view s))"
      then obtain h where "h \<in> set (groups s)" and "ws = remove1 this (elements s h)"
        by (auto simp: group_view_def)
      then show "ws \<noteq> []"
        using False others [of h] by (cases "h = g") auto
    qed
    also have "\<dots> = map ?E (groups s)"
      unfolding group_view_def map_map
    proof (intro map_cong refl)
      fix h assume "h \<in> set (groups s)"
      then show "(remove1 this \<circ> elements s) h = ?E h"
        using others [of h] by (cases "h = g") auto
    qed
    finally show ?thesis using False by (simp add: unlinked_def group_view_def)
  qed
qed

lemma view_destroy:
  assumes "tidy s"
  shows "group_view (destroy this s)
       = filter (\<lambda>ws. ws \<noteq> []) (map (remove1 this) (group_view s))"
proof (cases "isActive this s")
  case True
  then obtain g where "g \<in> set (groups s)" and "this \<in> set (elements s g)"
    by (auto simp: isActive_iff)
  then show ?thesis using assms by (simp add: destroy_active view_unlinked)
next
  case False
  then have "destroy this s = s" using assms by (simp add: destroy_inactive tidy_def)
  moreover have "filter (\<lambda>ws. ws \<noteq> []) (map (remove1 this) (group_view s)) = group_view s"
  proof -
    have "map (remove1 this) (group_view s) = group_view s"
      using False by (intro map_idI) (auto simp: group_view_def isActive_iff remove1_idem)
    moreover have "filter (\<lambda>ws. ws \<noteq> []) (group_view s) = group_view s"
      using assms by (intro filter_True) (auto simp: group_view_def tidy_def)
    ultimately show ?thesis by simp
  qed
  ultimately show ?thesis by simp
qed

lemma destroy_fields [simp]:
  "allocated (destroy this s) = allocated s"
  "allowedNumberOfGroups (destroy this s) = allowedNumberOfGroups s"
  "nextUserInteractionAllowsAnewGroup (destroy this s) = nextUserInteractionAllowsAnewGroup s"
  "cancelAction (destroy this s) = cancelAction s"
  "closeAction (destroy this s) = closeAction s"
  "isRunningCancelAction (destroy this s) = isRunningCancelAction s"
  "defaultView (destroy this s) = defaultView s"
  "aborted (destroy this s) = aborted s"
  "env (destroy this s) = env s"
  "calls (destroy this s) = calls s"
proof -
  obtain G E where "destroy this s = s\<lparr> groups := G, elements := E \<rparr>"
    unfolding destroy_def using destroy_loop_frame by blast
  then show
    "allocated (destroy this s) = allocated s"
    "allowedNumberOfGroups (destroy this s) = allowedNumberOfGroups s"
    "nextUserInteractionAllowsAnewGroup (destroy this s) = nextUserInteractionAllowsAnewGroup s"
    "cancelAction (destroy this s) = cancelAction s"
    "closeAction (destroy this s) = closeAction s"
    "isRunningCancelAction (destroy this s) = isRunningCancelAction s"
    "defaultView (destroy this s) = defaultView s"
    "aborted (destroy this s) = aborted s"
    "env (destroy this s) = env s"
    "calls (destroy this s) = calls s"
    by simp_all
qed

lemma groups_destroy:
  assumes "tidy s"
  shows "groups (destroy this s) = groups s \<or> (\<exists>g. groups (destroy this s) = remove1 g (groups s))"
proof (cases "isActive this s")
  case True
  then obtain g where "g \<in> set (groups s)" and "this \<in> set (elements s g)"
    by (auto simp: isActive_iff)
  then have "destroy this s = unlinked this g s"
    using assms by (simp add: destroy_active)
  then show ?thesis by (auto simp: unlinked_def)
next
  case False
  then show ?thesis using assms by (simp add: destroy_inactive tidy_def)
qed

lemma groups_destroy_subset:
  assumes "tidy s"
  shows "set (groups (destroy this s)) \<subseteq> set (groups s)"
proof (cases "isActive this s")
  case True
  then obtain g where "g \<in> set (groups s)" and "this \<in> set (elements s g)"
    by (auto simp: isActive_iff)
  then have "destroy this s = unlinked this g s"
    using assms by (simp add: destroy_active)
  then show ?thesis by (auto simp: unlinked_def dest: in_remove1D)
next
  case False
  then show ?thesis using assms by (simp add: destroy_inactive tidy_def)
qed

text \<open>Updates of the fields that the invariant's group part does not read.\<close>

lemma tidy_cong:
  "groups s' = groups s \<Longrightarrow> elements s' = elements s \<Longrightarrow> tidy s' = tidy s"
  by (simp add: tidy_def)

lemma isActive_cong:
  "groups s' = groups s \<Longrightarrow> elements s' = elements s \<Longrightarrow> isActive w s' = isActive w s"
  by (simp add: isActive_def)

lemma invariant_initial: "invariant (initial x dv)"
  by (simp add: invariant_def tidy_def initial_def isActive_def)

lemma invariant_destroy:
  assumes "invariant s"
  shows "invariant (destroy this s)"
proof -
  have t: "tidy s" using assms by (simp add: invariant_def)
  have "tidy (destroy this s)" using t by (rule tidy_destroy)
  moreover have "\<forall>g \<in> set (groups (destroy this s)). g < allocated s"
    using assms groups_destroy_subset [OF t, of this] by (auto simp: invariant_def)
  moreover have "\<forall>w. isActive w (destroy this s) \<longrightarrow> Constructed w \<in> set (calls s)"
    using assms by (simp add: isActive_destroy [OF t] invariant_def)
  moreover have "sorted (groups (destroy this s))"
    using assms groups_destroy [OF t, of this] by (auto simp: invariant_def sorted_remove1)
  ultimately show ?thesis
    using assms by (simp add: invariant_def)
qed

lemma invariant_close:
  assumes "invariant s"
  shows "invariant (close this s)"
proof (cases "isActive this s \<and> defaultView s")
  case False
  then show ?thesis using assms by (auto simp: close_def)
next
  case True
  let ?d = "destroy this s"
  let ?s' = "?d\<lparr> env := closeAction ?d this (env ?d),
      calls := calls ?d @ [CloseActionCalled this] \<rparr>"
  have c: "close this s = ?s'" using True by (simp add: close_def Let_def)
  have i: "invariant ?d" using assms by (rule invariant_destroy)
  have "tidy ?s' = tidy ?d" by (rule tidy_cong) simp_all
  moreover have "\<And>w. isActive w ?s' = isActive w ?d" by (rule isActive_cong) simp_all
  ultimately have "invariant ?s'"
    using i unfolding invariant_def by simp
  then show ?thesis using c by simp
qed

lemma requestClose_eq:
  "requestClose this s =
     (True,
      if isActive this s \<and> \<not> isRunningCancelAction s this then
        (if fst (cancelAction s this (env s)) then cancelled this s
         else close this (cancelled this s))
      else s\<lparr> calls := calls s @ [RequestCloseCalled this] \<rparr>)"
  by (simp add: requestClose_def Let_def isActive_def cancelled_def)

lemma invariant_cancelled:
  assumes "invariant s" and "isActive this s" and "\<not> isRunningCancelAction s this"
  shows "invariant (cancelled this s)"
proof -
  have "tidy (cancelled this s) = tidy s"
    by (rule tidy_cong) (simp_all add: cancelled_def)
  moreover have "\<And>w. isActive w (cancelled this s) = isActive w s"
    by (rule isActive_cong) (simp_all add: cancelled_def)
  moreover have "CancelActionCalled this \<notin> set (calls s)"
    using assms(1,3) by (auto simp: invariant_def)
  then have "count_list (calls s) (CancelActionCalled this) = 0"
    by (simp add: count_list_0_iff)
  ultimately show ?thesis
    using assms unfolding invariant_def
    by (simp add: cancelled_def)
qed

lemma invariant_requestClose:
  assumes "invariant s"
  shows "invariant (snd (requestClose this s))"
proof (cases "isActive this s \<and> \<not> isRunningCancelAction s this")
  case True
  then have "invariant (cancelled this s)"
    using assms by (simp add: invariant_cancelled)
  then show ?thesis
    using True by (simp add: requestClose_eq invariant_close)
next
  case False
  let ?s' = "s\<lparr> calls := calls s @ [RequestCloseCalled this] \<rparr>"
  have "tidy ?s' = tidy s" by (rule tidy_cong) simp_all
  moreover have "\<And>w. isActive w ?s' = isActive w s" by (rule isActive_cong) simp_all
  ultimately have "invariant ?s'"
    using assms unfolding invariant_def by simp
  moreover have "snd (requestClose this s) = ?s'"
    unfolding requestClose_eq by (simp only: if_not_P [OF False] snd_conv)
  ultimately show ?thesis by simp
qed

lemma watchers_loop_preserves:
  assumes "\<And>w t. P t \<Longrightarrow> P (snd (requestClose w t))" and "P s"
  shows "P (snd (watchers_loop latest i processed s))"
  using assms(2)
proof (induction latest i processed s rule: watchers_loop.induct)
  case (1 latest i processed s)
  show ?case
  proof (cases "i < length (elements s latest)")
    case False
    then show ?thesis using "1.prems" by (simp add: watchers_loop.simps [of latest i processed s])
  next
    case True
    define closeWatcher where "closeWatcher = elements s latest ! i"
    define r where "r = requestClose closeWatcher s"
    have P: "P (snd r)" using assms(1) "1.prems" by (simp add: r_def)
    show ?thesis
    proof (cases "fst r")
      case False
      then show ?thesis
        using True P
        by (simp add: watchers_loop.simps [of latest i processed s] Let_def r_def closeWatcher_def)
    next
      case fr: True
      then have "\<not> \<not> fst r" by simp
      then have "P (snd (watchers_loop latest (i + 1) True (snd r)))"
        using "1.IH" [OF True closeWatcher_def r_def] P by blast
      then show ?thesis
        using True fr
        by (simp add: watchers_loop.simps [of latest i processed s] Let_def r_def closeWatcher_def)
    qed
  qed
qed

lemma invariant_reversed:
  assumes "invariant s"
  shows "invariant (s\<lparr> elements := (elements s)(g := rev (elements s g)) \<rparr>)"
proof -
  let ?s' = "s\<lparr> elements := (elements s)(g := rev (elements s g)) \<rparr>"
  have set_eq: "\<And>h. set (elements ?s' h) = set (elements s h)" by simp
  have "tidy ?s'"
    using assms unfolding invariant_def tidy_def by simp
  moreover have "\<And>w. isActive w ?s' = isActive w s"
    unfolding isActive_iff using set_eq by simp
  ultimately show ?thesis
    using assms unfolding invariant_def by simp
qed

lemma invariant_processCloseWatchers:
  assumes "invariant s"
  shows "invariant (snd (processCloseWatchers s))"
proof -
  define r where "r = (if length (groups s) > 0 then
      watchers_loop (last (groups s)) 0 False
        (s\<lparr> elements := (elements s)(last (groups s) := rev (elements s (last (groups s)))) \<rparr>)
      else (False, s))"
  have i: "invariant (snd r)"
    unfolding r_def using assms
    by (simp add: watchers_loop_preserves [where P = invariant] invariant_requestClose
        invariant_reversed)
  let ?s1 = "snd r"
  have "tidy (?s1\<lparr> allowedNumberOfGroups := allowedNumberOfGroups ?s1 - 1 \<rparr>) = tidy ?s1"
    by (rule tidy_cong) simp_all
  moreover have "\<And>w. isActive w (?s1\<lparr> allowedNumberOfGroups := allowedNumberOfGroups ?s1 - 1 \<rparr>)
      = isActive w ?s1"
    by (rule isActive_cong) simp_all
  ultimately have "1 < allowedNumberOfGroups ?s1 \<Longrightarrow>
      invariant (?s1\<lparr> allowedNumberOfGroups := allowedNumberOfGroups ?s1 - 1 \<rparr>)"
    using i unfolding invariant_def by simp
  moreover have "snd (processCloseWatchers s) =
      (if 1 < allowedNumberOfGroups ?s1
       then ?s1\<lparr> allowedNumberOfGroups := allowedNumberOfGroups ?s1 - 1 \<rparr> else ?s1)"
    by (simp add: processCloseWatchers_def Let_def r_def)
  ultimately show ?thesis
    using i by (cases "1 < allowedNumberOfGroups ?s1") simp_all
qed

lemma invariant_input_event:
  assumes "invariant s"
  shows "invariant (input_event e s)"
proof -
  have "\<And>n b a. tidy (s\<lparr> allowedNumberOfGroups := n, nextUserInteractionAllowsAnewGroup := b,
      aborted := a \<rparr>) = tidy s"
    by (rule tidy_cong) simp_all
  moreover have "\<And>n b a w. isActive w (s\<lparr> allowedNumberOfGroups := n,
      nextUserInteractionAllowsAnewGroup := b, aborted := a \<rparr>) = isActive w s"
    by (rule isActive_cong) simp_all
  moreover have "\<And>b a. tidy (s\<lparr> nextUserInteractionAllowsAnewGroup := b, aborted := a \<rparr>) = tidy s"
    by (rule tidy_cong) simp_all
  moreover have "\<And>b a w. isActive w (s\<lparr> nextUserInteractionAllowsAnewGroup := b, aborted := a \<rparr>)
      = isActive w s"
    by (rule isActive_cong) simp_all
  ultimately show ?thesis
    using assms unfolding invariant_def input_event_def notify_def
    by (simp add: Let_def)
qed

lemma invariant_construct:
  assumes inv: "invariant s" and fresh: "Constructed this \<notin> set (calls s)"
    and new: "InternalCloseWatcher cancel closing this s = Inr s'"
  shows "invariant s'"
proof -
  have t: "tidy s" using inv by (simp add: invariant_def)
  have inactive: "\<And>g. g \<in> set (groups s) \<Longrightarrow> this \<notin> set (elements s g)"
    using inv fresh by (auto simp: invariant_def isActive_iff)
  have idle: "\<not> isRunningCancelAction s this" and uncalled: "CancelActionCalled this \<notin> set (calls s)"
    using inv fresh by (auto simp: invariant_def)
  define G E where "G = groups s'" and "E = elements s'"
  have rest: "allowedNumberOfGroups s' = allowedNumberOfGroups s"
      "calls s' = calls s @ [Constructed this]"
      "isRunningCancelAction s' = (isRunningCancelAction s)(this := False)"
    using new by (auto simp: InternalCloseWatcher_def Let_def split: if_splits)
  have shape: "(groups s' = groups s @ [allocated s] \<and> elements s' = (elements s)(allocated s := [this])
        \<and> allocated s' = allocated s + 1)
      \<or> (groups s \<noteq> [] \<and> groups s' = groups s \<and> allocated s' = allocated s
        \<and> elements s' = (elements s)(last (groups s) := elements s (last (groups s)) @ [this]))"
    using new by (auto simp: InternalCloseWatcher_def Let_def split: if_splits)
  have tidy': "tidy s'" and bound: "\<forall>g \<in> set (groups s'). g < allocated s'"
    and active: "\<And>w. isActive w s' \<Longrightarrow> w = this \<or> isActive w s"
  proof -
    from shape show "tidy s'"
    proof
      assume a: "groups s' = groups s @ [allocated s] \<and> elements s' = (elements s)(allocated s := [this])
        \<and> allocated s' = allocated s + 1"
      have out: "allocated s \<notin> set (groups s)"
        using inv by (auto simp: invariant_def)
      then show ?thesis
        using t a inactive unfolding tidy_def by auto
    next
      assume b: "groups s \<noteq> [] \<and> groups s' = groups s \<and> allocated s' = allocated s
        \<and> elements s' = (elements s)(last (groups s) := elements s (last (groups s)) @ [this])"
      then have "last (groups s) \<in> set (groups s)" by simp
      then show ?thesis
        using t b inactive unfolding tidy_def by auto
    qed
    have "\<forall>g \<in> set (groups s). g < allocated s"
      using inv by (simp add: invariant_def)
    with shape show "\<forall>g \<in> set (groups s'). g < allocated s'"
      by (auto simp: less_Suc_eq)
    fix w assume "isActive w s'"
    with shape show "w = this \<or> isActive w s"
      by (auto simp: isActive_iff split: if_splits)
  qed
  show ?thesis
    unfolding invariant_def
  proof (intro conjI allI impI)
    show "tidy s'" by (rule tidy')
    show "\<forall>g \<in> set (groups s'). g < allocated s'" by (rule bound)
    show "1 \<le> allowedNumberOfGroups s'" using inv rest by (simp add: invariant_def)
    fix w
    show "Constructed w \<in> set (calls s')" if "isActive w s'"
      using active [OF that] inv rest by (auto simp: invariant_def)
    show "Constructed w \<in> set (calls s')" if "isRunningCancelAction s' w"
      using that inv rest by (auto simp: invariant_def split: if_splits)
    show "isRunningCancelAction s' w" if "CancelActionCalled w \<in> set (calls s')"
      using that inv rest uncalled by (auto simp: invariant_def)
    show "count_list (calls s') (CancelActionCalled w) \<le> 1"
      using inv rest by (simp add: invariant_def)
  next
    have "sorted (groups s)" and "\<forall>g \<in> set (groups s). g < allocated s"
      using inv by (simp_all add: invariant_def)
    with shape show "sorted (groups s')"
      by (auto simp: sorted_append less_imp_le)
  qed
qed

lemma invariant_step: "step s s' \<Longrightarrow> invariant s \<Longrightarrow> invariant s'"
proof (induction rule: step.induct)
  case (construct this s cancel closing s')
  then show ?case by (simp add: invariant_construct)
next
  case (document s dv)
  have "tidy (s\<lparr> defaultView := dv \<rparr>) = tidy s" by (rule tidy_cong) simp_all
  moreover have "\<And>w. isActive w (s\<lparr> defaultView := dv \<rparr>) = isActive w s"
    by (rule isActive_cong) simp_all
  ultimately show ?case using document unfolding invariant_def by simp
next
  case (outside s x)
  have "tidy (s\<lparr> env := x \<rparr>) = tidy s" by (rule tidy_cong) simp_all
  moreover have "\<And>w. isActive w (s\<lparr> env := x \<rparr>) = isActive w s"
    by (rule isActive_cong) simp_all
  ultimately show ?case using outside unfolding invariant_def by simp
qed (simp_all add: invariant_destroy invariant_close invariant_requestClose
    invariant_processCloseWatchers invariant_input_event)

lemma reachable_invariant: "reachable s \<Longrightarrow> invariant s"
proof (induction rule: reachable.induct)
  case (start x dv)
  show ?case by (rule invariant_initial)
next
  case (step s s')
  from step.hyps(2) step.IH show ?case by (rule invariant_step)
qed

lemma two_watchers_constructed:
  "construct_all [(0, answer a, Suc), (1, answer b, Suc)] (initial 0 dv)
     = Inr (two_watchers dv a b)"
  by (auto simp: InternalCloseWatcher_def initial_def two_watchers_def Let_def fun_eq_iff)

lemma reachable_two_watchers: "reachable (two_watchers dv a b)"
proof -
  obtain s1 where 1: "InternalCloseWatcher (answer a) Suc 0 (initial 0 dv) = Inr s1"
    and c1: "calls s1 = [Constructed 0]"
    by (simp add: InternalCloseWatcher_def initial_def Let_def)
  have 2: "InternalCloseWatcher (answer b) Suc 1 s1 = Inr (two_watchers dv a b)"
    using two_watchers_constructed [of a b dv] 1 by (simp split: sum.splits)
  have "Constructed 0 \<notin> set (calls (initial (0::nat) dv))"
    by (simp add: initial_def)
  then have "step (initial 0 dv) s1"
    using 1 by (rule step.construct)
  with reachable.start have "reachable s1"
    by (rule reachable.step)
  moreover have "Constructed 1 \<notin> set (calls s1)"
    using c1 by simp
  then have "step s1 (two_watchers dv a b)"
    using 2 by (rule step.construct)
  ultimately show ?thesis
    by (rule reachable.step)
qed

lemma close_fields [simp]:
  "allocated (close this s) = allocated s"
  "allowedNumberOfGroups (close this s) = allowedNumberOfGroups s"
  "nextUserInteractionAllowsAnewGroup (close this s) = nextUserInteractionAllowsAnewGroup s"
  "cancelAction (close this s) = cancelAction s"
  "closeAction (close this s) = closeAction s"
  "isRunningCancelAction (close this s) = isRunningCancelAction s"
  "defaultView (close this s) = defaultView s"
  "aborted (close this s) = aborted s"
  by (simp_all add: close_def Let_def)

lemma requestClose_fields [simp]:
  "allocated (snd (requestClose this s)) = allocated s"
  "allowedNumberOfGroups (snd (requestClose this s)) = allowedNumberOfGroups s"
  "nextUserInteractionAllowsAnewGroup (snd (requestClose this s))
     = nextUserInteractionAllowsAnewGroup s"
  "cancelAction (snd (requestClose this s)) = cancelAction s"
  "closeAction (snd (requestClose this s)) = closeAction s"
  "defaultView (snd (requestClose this s)) = defaultView s"
  "aborted (snd (requestClose this s)) = aborted s"
  by (simp_all add: requestClose_eq cancelled_def)

lemma reachable_tidy: "reachable s \<Longrightarrow> tidy s"
  using reachable_invariant by (auto simp: invariant_def)

lemma at_most_one_group:
  assumes "tidy s"
  shows "length (filter (\<lambda>ws. this \<in> set ws) (group_view s)) \<le> 1"
proof -
  let ?xs = "filter (\<lambda>g. this \<in> set (elements s g)) (groups s)"
  have d: "distinct ?xs" using assms by (simp add: tidy_def)
  have same: "\<And>g h. g \<in> set ?xs \<Longrightarrow> h \<in> set ?xs \<Longrightarrow> g = h"
    using assms unfolding tidy_def by auto
  have "length ?xs \<le> 1"
  proof (cases ?xs)
    case Nil
    then show ?thesis by simp
  next
    case (Cons g gs)
    show ?thesis
    proof (cases gs)
      case Nil
      then show ?thesis using Cons by simp
    next
      case (Cons h hs)
      then have "g \<in> set ?xs" and "h \<in> set ?xs" and "g \<noteq> h"
        using d \<open>?xs = g # gs\<close> by auto
      then show ?thesis using same by blast
    qed
  qed
  moreover have "filter (\<lambda>ws. this \<in> set ws) (group_view s) = map (elements s) ?xs"
    by (simp add: group_view_def filter_map comp_def)
  ultimately show ?thesis by simp
qed

lemma close_active:
  assumes t: "tidy s" and a: "isActive this s" and dv: "defaultView s"
  shows "\<not> isActive this (close this s)"
    and "group_view (close this s)
      = filter (\<lambda>ws. ws \<noteq> []) (map (remove1 this) (group_view s))"
    and "calls (close this s) = calls s @ [CloseActionCalled this]"
    and "env (close this s) = closeAction s this (env s)"
proof -
  let ?d = "destroy this s"
  have c: "close this s = ?d\<lparr> env := closeAction s this (env s),
      calls := calls s @ [CloseActionCalled this] \<rparr>"
    using a dv by (simp add: close_def Let_def)
  have "isActive this (close this s) = isActive this ?d"
    unfolding c by (rule isActive_cong) simp_all
  then show "\<not> isActive this (close this s)"
    using t by (simp add: isActive_destroy)
  have "group_view (close this s) = group_view ?d"
    unfolding c by (simp add: group_view_def)
  then show "group_view (close this s)
      = filter (\<lambda>ws. ws \<noteq> []) (map (remove1 this) (group_view s))"
    using t by (simp add: view_destroy)
  show "calls (close this s) = calls s @ [CloseActionCalled this]"
    unfolding c by simp
  show "env (close this s) = closeAction s this (env s)"
    unfolding c by simp
qed

lemma close_idle: "\<not> isActive this s \<or> \<not> defaultView s \<Longrightarrow> close this s = s"
  by (auto simp: close_def)

lemma cancelled_fields [simp]:
  "groups (cancelled this s) = groups s"
  "elements (cancelled this s) = elements s"
  "defaultView (cancelled this s) = defaultView s"
  "closeAction (cancelled this s) = closeAction s"
  "env (cancelled this s) = snd (cancelAction s this (env s))"
  "calls (cancelled this s) = calls s @ [RequestCloseCalled this, CancelActionCalled this]"
  "isRunningCancelAction (cancelled this s) = (isRunningCancelAction s)(this := True)"
  by (simp_all add: cancelled_def)



lemma construct_all_one_group:
  assumes "groups s = [g]" and "allowedNumberOfGroups s = 1"
  shows "\<exists>s'. construct_all ws s = Inr s' \<and> groups s' = [g] \<and>
      elements s' g = elements s g @ map fst ws"
  using assms
proof (induction ws arbitrary: s)
  case Nil
  then show ?case by simp
next
  case (Cons w ws)
  obtain this cancel closing where w: "w = (this, cancel, closing)"
    by (cases w) auto
  define s1 where "s1 = s\<lparr> cancelAction := (cancelAction s)(this := cancel),
      closeAction := (closeAction s)(this := closing),
      isRunningCancelAction := (isRunningCancelAction s)(this := False),
      calls := calls s @ [Constructed this],
      elements := (elements s)(g := elements s g @ [this]) \<rparr>"
  have new: "InternalCloseWatcher cancel closing this s = Inr s1"
    using Cons.prems by (simp add: InternalCloseWatcher_def Let_def s1_def)
  have "groups s1 = [g]" and "allowedNumberOfGroups s1 = 1"
    using Cons.prems by (simp_all add: s1_def)
  then obtain s' where "construct_all ws s1 = Inr s'" and "groups s' = [g]"
      and "elements s' g = elements s1 g @ map fst ws"
    using Cons.IH [of s1] by blast
  then show ?case
    using new w by (simp add: s1_def)
qed

lemma construct_all_from_empty:
  assumes "groups s = []" and "allowedNumberOfGroups s = 1"
  shows "\<exists>s'. construct_all ws s = Inr s' \<and>
      group_view s' = (if ws = [] then [] else [map fst ws])"
proof (cases ws)
  case Nil
  then show ?thesis using assms by (simp add: group_view_def)
next
  case (Cons w ws')
  obtain this cancel closing where w: "w = (this, cancel, closing)"
    by (cases w) auto
  define s1 where "s1 = s\<lparr> cancelAction := (cancelAction s)(this := cancel),
      closeAction := (closeAction s)(this := closing),
      isRunningCancelAction := (isRunningCancelAction s)(this := False),
      calls := calls s @ [Constructed this],
      groups := [allocated s], elements := (elements s)(allocated s := [this]),
      allocated := allocated s + 1 \<rparr>"
  have new: "InternalCloseWatcher cancel closing this s = Inr s1"
    using assms by (simp add: InternalCloseWatcher_def Let_def s1_def)
  have "groups s1 = [allocated s]" and "allowedNumberOfGroups s1 = 1"
    using assms by (simp_all add: s1_def)
  then obtain s' where "construct_all ws' s1 = Inr s'" and "groups s' = [allocated s]"
      and "elements s' (allocated s) = elements s1 (allocated s) @ map fst ws'"
    using construct_all_one_group [of s1 "allocated s" ws'] by blast
  then show ?thesis
    using new w Cons by (simp add: s1_def group_view_def)
qed

lemma construct_new_group:
  assumes "invariant s" and "int (length (groups s)) < allowedNumberOfGroups s"
  shows "\<exists>s'. InternalCloseWatcher cancel closing this s = Inr s' \<and>
      group_view s' = group_view s @ [[this]] \<and> isActive this s'"
proof -
  have "allocated s \<notin> set (groups s)"
    using assms(1) by (auto simp: invariant_def)
  then have "map ((elements s)(allocated s := [this])) (groups s) = map (elements s) (groups s)"
    by (intro map_cong) auto
  then show ?thesis
    using assms(2) by (simp add: InternalCloseWatcher_def Let_def group_view_def isActive_def)
qed

lemma construct_last_group:
  assumes "invariant s" and "\<not> int (length (groups s)) < allowedNumberOfGroups s"
  shows "\<exists>s'. InternalCloseWatcher cancel closing this s = Inr s' \<and>
      group_view s' = butlast (group_view s) @ [last (group_view s) @ [this]] \<and>
      isActive this s'"
proof -
  have "1 \<le> allowedNumberOfGroups s" and d: "distinct (groups s)"
    using assms(1) by (simp_all add: invariant_def tidy_def)
  then have ne: "groups s \<noteq> []" using assms(2) by auto
  then obtain bs l where split: "groups s = bs @ [l]"
    by (metis append_butlast_last_id)
  let ?E = "(elements s)(l := elements s l @ [this])"
  have "l \<notin> set bs"
    using d split by simp
  then have "map ?E bs = map (elements s) bs"
    by (intro map_cong) auto
  then have "map ?E (groups s)
      = butlast (map (elements s) (groups s)) @ [last (map (elements s) (groups s)) @ [this]]"
    using split by simp
  then show ?thesis
    using assms(2) split
    by (simp add: InternalCloseWatcher_def Let_def group_view_def isActive_def)
qed

lemma guard_requestClose:
  "isRunningCancelAction s w \<Longrightarrow> isRunningCancelAction (snd (requestClose this s)) w"
  by (simp add: requestClose_eq)

lemma guard_watchers_loop:
  "isRunningCancelAction s w \<Longrightarrow>
   isRunningCancelAction (snd (watchers_loop latest i processed s)) w"
  by (rule watchers_loop_preserves [where P = "\<lambda>t. isRunningCancelAction t w"])
    (simp_all add: guard_requestClose)

lemma guard_processCloseWatchers:
  "isRunningCancelAction s w \<Longrightarrow> isRunningCancelAction (snd (processCloseWatchers s)) w"
  by (simp add: processCloseWatchers_def Let_def guard_watchers_loop)

lemma guard_step:
  assumes "step s s'" and "invariant s" and "isRunningCancelAction s w"
  shows "isRunningCancelAction s' w"
  using assms
proof (induction rule: step.induct)
  case (construct this s cancel closing s')
  then have "Constructed w \<in> set (calls s)"
    by (simp add: invariant_def)
  then have "w \<noteq> this" using construct by auto
  then show ?case
    using construct by (auto simp: InternalCloseWatcher_def Let_def split: if_splits)
next
  case (input s e)
  then show ?case by (simp add: input_event_def notify_def Let_def)
qed (simp_all add: guard_requestClose guard_processCloseWatchers)

lemma guard_steps:
  assumes "step\<^sup>*\<^sup>* s s'" and "invariant s" and "isRunningCancelAction s w"
  shows "invariant s' \<and> isRunningCancelAction s' w"
  using assms
proof (induction rule: rtranclp_induct)
  case base
  then show ?case by simp
next
  case (step t u)
  then show ?case by (simp add: invariant_step guard_step)
qed

lemma destroy_loop_step:
  "i < length (groups s) \<Longrightarrow>
   destroy_loop this i s =
     destroy_loop this (i + 1)
       (let group = groups s ! i;
            s1 = (if this \<in> set (elements s group)
                  then s\<lparr> elements := (elements s)(group := remove1 this (elements s group)) \<rparr>
                  else s)
        in if elements s1 group = []
           then s1\<lparr> groups := remove1 group (groups s1) \<rparr>
           else s1)"
  by (simp add: destroy_loop.simps [of this i s] Let_def)

lemma destroy_loop_done: "\<not> i < length (groups s) \<Longrightarrow> destroy_loop this i s = s"
  by (simp add: destroy_loop.simps [of this i s])

lemma watchers_loop_step:
  "i < length (elements s latest) \<Longrightarrow>
   watchers_loop latest i processed s =
     watchers_loop latest (i + 1) True (snd (requestClose (elements s latest ! i) s))"
  by (simp add: watchers_loop.simps [of latest i processed s] Let_def requestClose_eq)

lemma watchers_loop_done:
  "\<not> i < length (elements s latest) \<Longrightarrow> watchers_loop latest i processed s = (processed, s)"
  by (simp add: watchers_loop.simps [of latest i processed s])

lemmas evaluate = two_watchers_def answer_def processCloseWatchers_def
  watchers_loop_step watchers_loop_done requestClose_def isActive_def close_def destroy_def
  destroy_loop_step destroy_loop_done group_view_def Let_def

lemma close_with_on_env:
  "close this s = close_with (on_env_close (closeAction s this)) this s"
  by (simp add: close_def close_with_def on_env_close_def Let_def)

lemma requestClose_with_eq:
  "requestClose_with cancel closing this s =
     (True,
      if isActive this s \<and> \<not> isRunningCancelAction s this then
        (if fst (cancel (asked this s)) then snd (cancel (asked this s))
         else close_with closing this (snd (cancel (asked this s))))
      else s\<lparr> calls := calls s @ [RequestCloseCalled this] \<rparr>)"
  by (simp add: requestClose_with_def Let_def isActive_def asked_def)

lemma requestClose_with_on_env:
  "requestClose this s
     = requestClose_with (on_env_cancel (cancelAction s this)) (on_env_close (closeAction s this))
         this s"
proof -
  have c: "on_env_cancel (cancelAction s this) (asked this s)
      = (fst (cancelAction s this (env s)), cancelled this s)"
    by (simp add: on_env_cancel_def asked_def cancelled_def)
  have "close this (cancelled this s)
      = close_with (on_env_close (closeAction s this)) this (cancelled this s)"
    using close_with_on_env [of this "cancelled this s"] by simp
  then show ?thesis
    by (simp add: requestClose_eq requestClose_with_eq c)
qed

lemma close_with_eq:
  "close_with closing this s =
     (if isActive this s \<and> defaultView s then closing (removed this s) else s)"
  by (simp add: close_with_def removed_def Let_def)

lemma removed_tidy:
  assumes "tidy s"
  shows "\<not> isActive this (removed this s)"
    and "group_view (removed this s)
      = filter (\<lambda>ws. ws \<noteq> []) (map (remove1 this) (group_view s))"
    and "tidy (removed this s)"
proof -
  have "isActive this (removed this s) = isActive this (destroy this s)"
    unfolding removed_def by (rule isActive_cong) simp_all
  then show "\<not> isActive this (removed this s)"
    using assms by (simp add: isActive_destroy)
  have "group_view (removed this s) = group_view (destroy this s)"
    by (simp add: removed_def group_view_def)
  then show "group_view (removed this s)
      = filter (\<lambda>ws. ws \<noteq> []) (map (remove1 this) (group_view s))"
    using assms by (simp add: view_destroy)
  have "tidy (removed this s) = tidy (destroy this s)"
    unfolding removed_def by (rule tidy_cong) simp_all
  then show "tidy (removed this s)"
    using assms by (simp add: tidy_destroy)
qed

lemma tidy_asked: "tidy (asked this s) = tidy s"
  by (rule tidy_cong) (simp_all add: asked_def)

lemma tidy_close_with:
  assumes "\<And>t. tidy t \<Longrightarrow> tidy (closing t)" and "tidy s"
  shows "tidy (close_with closing this s)"
  using assms by (simp add: close_with_eq removed_tidy)

lemma tidy_requestClose_with:
  assumes "\<And>t. tidy t \<Longrightarrow> tidy (snd (cancel t))" and "\<And>t. tidy t \<Longrightarrow> tidy (closing t)"
    and "tidy s"
  shows "tidy (snd (requestClose_with cancel closing this s))"
proof -
  have "tidy (s\<lparr> calls := calls s @ [RequestCloseCalled this] \<rparr>)"
    using assms(3) tidy_cong [of "s\<lparr> calls := calls s @ [RequestCloseCalled this] \<rparr>" s] by simp
  moreover have "tidy (snd (cancel (asked this s)))"
    using assms(1,3) by (simp add: tidy_asked)
  ultimately show ?thesis
    using assms(2) by (simp add: requestClose_with_eq tidy_close_with)
qed

lemmas evaluate_with = requestClose_with_eq close_with_eq removed_def asked_def
  on_env_cancel_def on_env_close_def prevent_and_destroy_def close_in_listener_def
  two_watchers_def answer_def isActive_def group_view_def destroy_def
  destroy_loop_step destroy_loop_done Let_def

section \<open>The claims\<close>

text \<open>
  Each claim is stated for every state the file can reach (\<open>reachable\<close>) where it depends
  on the invariant of the groups, and for every state otherwise. The examples evaluate
  the model on the running example.
\<close>

subsection \<open>C1: Order of a dismissal\<close>

text \<open>
  C1 (the code departs from the claim). The claim: a dismissal calls \<open>requestClose\<close> on
  the watchers of the last group in reverse registration order, so for \<open>[[A, B]]\<close> on B
  and then on A. The code reverses the group in place and walks the live array. With a
  view and both \<open>cancelAction\<close>s returning false, B is closed and removed during the
  walk, and \<open>requestClose\<close> is never called on A, which stays active. With both
  returning true, the first dismissal calls B then A and leaves the group reversed, so
  the second dismissal calls A then B: registration order, not its reverse.
\<close>

theorem processCloseWatchers_order:
  "reachable (two_watchers True False False) \<and> reachable (two_watchers True True True) \<and>
   group_view (two_watchers True False False) = [[0, 1]] \<and>
   requested (calls (snd (processCloseWatchers (two_watchers True False False)))) = [1] \<and>
   isActive 0 (snd (processCloseWatchers (two_watchers True False False))) \<and>
   requested (calls (snd (processCloseWatchers (two_watchers True True True)))) = [1, 0] \<and>
   requested (calls (snd (processCloseWatchers (snd (processCloseWatchers
     (two_watchers True True True)))))) = [1, 0, 0, 1]"
  using reachable_two_watchers [of True False False] reachable_two_watchers [of True True True]
  by (simp add: evaluate)

subsection \<open>C2: The result of requestClose\<close>

text \<open>
  C2. For every watcher and every state it is called in (active, inactive, or with the
  guard set), \<open>requestClose\<close> returns true. Consequently the \<open>break\<close> of the
  dispatcher's loop is never taken: the loop is the loop without it.
\<close>

theorem requestClose_returns_true:
  "fst (requestClose this s) \<and>
   watchers_loop latest i processed s =
     (if i < length (elements s latest)
      then watchers_loop latest (i + 1) True (snd (requestClose (elements s latest ! i) s))
      else (processed, s))"
  by (simp add: requestClose_eq watchers_loop.simps [of latest i processed s] Let_def)

subsection \<open>C3: requestClose on an active watcher\<close>

text \<open>
  C3 as stated fails in four ways, each at the running example with B or A active and
  the guard not set at the start.
  \<^item> The document has no view: B's \<open>cancelAction\<close> returns false, and after
    \<open>requestClose\<close> B is still active, the group is unchanged and \<open>closeAction\<close> was not
    called. The test of \<open>document.defaultView\<close> in \<open>close\<close> is explicit.
  \<^item> With a view, B's cancel listener calls \<open>preventDefault()\<close> and \<open>destroy()\<close>:
    \<open>cancelAction\<close> returns false, \<open>close\<close> finds B inactive, and \<open>closeAction\<close> is
    called zero times.
  \<^item> With a view, B's cancel listener calls \<open>close()\<close>: \<open>cancelAction\<close> returns true, yet
    B is closed and \<open>closeAction\<close> has been called once.
  \<^item> A's \<open>cancelAction\<close> returns true, so A stays active and its cancel action is no
    longer running, but its guard stays set: a second \<open>requestClose\<close> does not call
    \<open>cancelAction\<close>.
\<close>

theorem requestClose_as_stated_fails:
  "reachable (two_watchers False False False) \<and>
   isActive 1 (two_watchers False False False) \<and>
   \<not> isRunningCancelAction (two_watchers False False False) 1 \<and>
   \<not> fst (cancelAction (two_watchers False False False) 1 (env (two_watchers False False False))) \<and>
   isActive 1 (snd (requestClose 1 (two_watchers False False False))) \<and>
   group_view (snd (requestClose 1 (two_watchers False False False))) = [[0, 1]] \<and>
   CloseActionCalled 1 \<notin> set (calls (snd (requestClose 1 (two_watchers False False False)))) \<and>
   reachable (two_watchers True True True) \<and>
   isActive 1 (two_watchers True True True) \<and>
   \<not> isRunningCancelAction (two_watchers True True True) 1 \<and>
   defaultView (two_watchers True True True) \<and>
   \<not> fst (prevent_and_destroy 1 (asked 1 (two_watchers True True True))) \<and>
   count_list (calls (snd (requestClose_with (prevent_and_destroy 1) (on_env_close Suc) 1
     (two_watchers True True True)))) (CloseActionCalled 1) = 0 \<and>
   fst (close_in_listener (on_env_close Suc) 1 (asked 1 (two_watchers True True True))) \<and>
   \<not> isActive 1 (snd (requestClose_with (close_in_listener (on_env_close Suc) 1)
     (on_env_close Suc) 1 (two_watchers True True True))) \<and>
   count_list (calls (snd (requestClose_with (close_in_listener (on_env_close Suc) 1)
     (on_env_close Suc) 1 (two_watchers True True True)))) (CloseActionCalled 1) = 1 \<and>
   isActive 0 (snd (requestClose 0 (two_watchers True True True))) \<and>
   calls (snd (requestClose 0 (two_watchers True True True)))
     = [Constructed 0, Constructed 1, RequestCloseCalled 0, CancelActionCalled 0] \<and>
   calls (snd (requestClose 0 (snd (requestClose 0 (two_watchers True True True)))))
     = [Constructed 0, Constructed 1, RequestCloseCalled 0, CancelActionCalled 0,
        RequestCloseCalled 0]"
proof -
  have "isActive 1 (two_watchers False False False)"
    and "\<not> isRunningCancelAction (two_watchers False False False) 1"
    and "\<not> fst (cancelAction (two_watchers False False False) 1
        (env (two_watchers False False False)))"
    and "isActive 1 (snd (requestClose 1 (two_watchers False False False)))"
    and "group_view (snd (requestClose 1 (two_watchers False False False))) = [[0, 1]]"
    and "CloseActionCalled 1 \<notin> set (calls (snd (requestClose 1 (two_watchers False False False))))"
    by (simp_all add: requestClose_eq close_def cancelled_def two_watchers_def isActive_def
        group_view_def answer_def)
  moreover have "isActive 1 (two_watchers True True True)"
    and "\<not> isRunningCancelAction (two_watchers True True True) 1"
    and "defaultView (two_watchers True True True)"
    by (simp_all add: two_watchers_def isActive_def)
  moreover have "\<not> fst (prevent_and_destroy 1 (asked 1 (two_watchers True True True)))"
    and "fst (close_in_listener (on_env_close Suc) 1 (asked 1 (two_watchers True True True)))"
    by (simp_all add: prevent_and_destroy_def close_in_listener_def)
  moreover have "count_list (calls (snd (requestClose_with (prevent_and_destroy 1)
      (on_env_close Suc) 1 (two_watchers True True True)))) (CloseActionCalled 1) = 0"
    by (simp add: evaluate_with)
  moreover have "\<not> isActive 1 (snd (requestClose_with (close_in_listener (on_env_close Suc) 1)
      (on_env_close Suc) 1 (two_watchers True True True)))"
    and "count_list (calls (snd (requestClose_with (close_in_listener (on_env_close Suc) 1)
      (on_env_close Suc) 1 (two_watchers True True True)))) (CloseActionCalled 1) = 1"
    by (simp_all add: evaluate_with)
  moreover have "isActive 0 (snd (requestClose 0 (two_watchers True True True)))"
    and "calls (snd (requestClose 0 (two_watchers True True True)))
      = [Constructed 0, Constructed 1, RequestCloseCalled 0, CancelActionCalled 0]"
    and "calls (snd (requestClose 0 (snd (requestClose 0 (two_watchers True True True)))))
      = [Constructed 0, Constructed 1, RequestCloseCalled 0, CancelActionCalled 0,
         RequestCloseCalled 0]"
    by (simp_all add: requestClose_eq close_def cancelled_def two_watchers_def isActive_def
        answer_def)
  ultimately show ?thesis
    using reachable_two_watchers [of False False False] reachable_two_watchers [of True True True]
    by simp
qed

text \<open>
  C3, as amended. On an active watcher \<open>requestClose\<close> returns true. If the guard
  \<open>isRunningCancelAction\<close> is set, nothing else happens: no callback is called. If it
  is not set, the guard is set and \<open>cancelAction\<close> is called once; a \<open>cancelAction\<close>
  that does not touch the groups leaves the watcher active. If \<open>cancelAction\<close> returned
  true, nothing more is done: the state is the one \<open>cancelAction\<close> left (\<open>returned\<close>),
  and \<open>requestClose\<close> does not call \<open>closeAction\<close>. If it returned false, \<open>close\<close> runs:
  if the watcher is then inactive or the document has no view, nothing more is done;
  if the watcher is still active and the document has a view, the watcher is destroyed and
  \<open>closeAction\<close> is called exactly once, and (the groups being tidy when
  \<open>cancelAction\<close> returned, as every operation leaves them) the watcher is then
  removed from its group, the group unlinked if emptied.
\<close>

theorem requestClose_with_cancels_then_closes:
  fixes cancel :: "'e world \<Rightarrow> bool \<times> 'e world" and closing :: "'e world \<Rightarrow> 'e world"
    and this :: watcher and s returned after :: "'e world"
  defines "returned \<equiv> snd (cancel (asked this s))"
    and "after \<equiv> snd (requestClose_with cancel closing this s)"
  assumes "isActive this s"
  shows "fst (requestClose_with cancel closing this s) \<and>
         (isRunningCancelAction s this \<longrightarrow>
            after = s\<lparr> calls := calls s @ [RequestCloseCalled this] \<rparr>) \<and>
         (\<not> isRunningCancelAction s this \<longrightarrow>
            isRunningCancelAction (asked this s) this \<and>
            calls (asked this s) = calls s @ [RequestCloseCalled this, CancelActionCalled this] \<and>
            (groups returned = groups s \<and> elements returned = elements s \<longrightarrow>
               isActive this returned \<and> group_view returned = group_view s) \<and>
            (fst (cancel (asked this s)) \<longrightarrow> after = returned) \<and>
            (\<not> fst (cancel (asked this s)) \<and>
             (\<not> isActive this returned \<or> \<not> defaultView returned) \<longrightarrow>
               after = returned) \<and>
            (\<not> fst (cancel (asked this s)) \<and> isActive this returned \<and> defaultView returned \<longrightarrow>
               after = closing (removed this returned) \<and>
               calls (removed this returned) = calls returned @ [CloseActionCalled this] \<and>
               (tidy returned \<longrightarrow>
                  \<not> isActive this (removed this returned) \<and>
                  group_view (removed this returned)
                    = filter (\<lambda>ws. ws \<noteq> []) (map (remove1 this) (group_view returned)))))"
proof -
  let ?r = "cancel (asked this s)"
  have 1: "fst (requestClose_with cancel closing this s)"
    by (simp add: requestClose_with_eq)
  have 2: "isRunningCancelAction s this \<Longrightarrow>
      after = s\<lparr> calls := calls s @ [RequestCloseCalled this] \<rparr>"
    by (simp add: after_def requestClose_with_eq)
  have 3: "isRunningCancelAction (asked this s) this"
      "calls (asked this s) = calls s @ [RequestCloseCalled this, CancelActionCalled this]"
    by (simp_all add: asked_def)
  have r: "\<not> isRunningCancelAction s this \<Longrightarrow>
      after = (if fst ?r then returned else close_with closing this returned)"
    using assms(3) by (simp add: after_def returned_def requestClose_with_eq)
  have 4: "\<not> isRunningCancelAction s this \<Longrightarrow> fst ?r \<Longrightarrow> after = returned"
    using r by simp
  have 5: "\<not> isRunningCancelAction s this \<Longrightarrow> \<not> fst ?r \<Longrightarrow>
      \<not> isActive this returned \<or> \<not> defaultView returned \<Longrightarrow> after = returned"
    using r by (auto simp: close_with_eq)
  have 6: "\<not> isRunningCancelAction s this \<Longrightarrow> \<not> fst ?r \<Longrightarrow>
      isActive this returned \<Longrightarrow> defaultView returned \<Longrightarrow>
      after = closing (removed this returned)"
    using r by (simp add: close_with_eq)
  have 7: "calls (removed this returned) = calls returned @ [CloseActionCalled this]"
    by (simp add: removed_def)
  have 8: "groups returned = groups s \<Longrightarrow> elements returned = elements s \<Longrightarrow>
      isActive this returned \<and> group_view returned = group_view s"
    using assms(3) isActive_cong [of returned s this] by (simp add: group_view_def)
  show ?thesis
    using 1 2 3 4 5 6 7 8 removed_tidy(1,2) [of returned this] by blast
qed

text \<open>
  In the running example with a view: a \<open>cancelAction\<close> of B that returns false and
  leaves the watchers alone has B closed, with one \<open>closeAction\<close>; one that destroys B
  and returns false has no \<open>closeAction\<close>; one that closes B and returns true leaves the
  state it made; A's \<open>cancelAction\<close> returns true and leaves the watchers alone, so A
  stays active; and \<open>requestClose\<close> on A with its guard set changes nothing.
\<close>

theorem requestClose_with_cancels_then_closes_witness:
  "isActive 1 (two_watchers True True True) \<and>
   \<not> isRunningCancelAction (two_watchers True True True) 1 \<and>
   \<not> fst (on_env_cancel (answer False) (asked 1 (two_watchers True True True))) \<and>
   isActive 1 (snd (on_env_cancel (answer False) (asked 1 (two_watchers True True True)))) \<and>
   defaultView (snd (on_env_cancel (answer False) (asked 1 (two_watchers True True True)))) \<and>
   tidy (snd (on_env_cancel (answer False) (asked 1 (two_watchers True True True)))) \<and>
   \<not> isActive 1 (snd (requestClose_with (on_env_cancel (answer False)) (on_env_close Suc) 1
     (two_watchers True True True))) \<and>
   group_view (snd (requestClose_with (on_env_cancel (answer False)) (on_env_close Suc) 1
     (two_watchers True True True))) = [[0]] \<and>
   calls (snd (requestClose_with (on_env_cancel (answer False)) (on_env_close Suc) 1
     (two_watchers True True True)))
     = [Constructed 0, Constructed 1, RequestCloseCalled 1, CancelActionCalled 1,
        CloseActionCalled 1] \<and>
   env (snd (requestClose_with (on_env_cancel (answer False)) (on_env_close Suc) 1
     (two_watchers True True True))) = 1 \<and>
   \<not> fst (prevent_and_destroy 1 (asked 1 (two_watchers True True True))) \<and>
   \<not> isActive 1 (snd (prevent_and_destroy 1 (asked 1 (two_watchers True True True)))) \<and>
   snd (requestClose_with (prevent_and_destroy 1) (on_env_close Suc) 1 (two_watchers True True True))
     = snd (prevent_and_destroy 1 (asked 1 (two_watchers True True True))) \<and>
   calls (snd (requestClose_with (prevent_and_destroy 1) (on_env_close Suc) 1
     (two_watchers True True True)))
     = [Constructed 0, Constructed 1, RequestCloseCalled 1, CancelActionCalled 1] \<and>
   env (snd (requestClose_with (prevent_and_destroy 1) (on_env_close Suc) 1
     (two_watchers True True True))) = 0 \<and>
   fst (close_in_listener (on_env_close Suc) 1 (asked 1 (two_watchers True True True))) \<and>
   snd (requestClose_with (close_in_listener (on_env_close Suc) 1) (on_env_close Suc) 1
       (two_watchers True True True))
     = snd (close_in_listener (on_env_close Suc) 1 (asked 1 (two_watchers True True True))) \<and>
   calls (snd (requestClose_with (close_in_listener (on_env_close Suc) 1) (on_env_close Suc) 1
     (two_watchers True True True)))
     = [Constructed 0, Constructed 1, RequestCloseCalled 1, CancelActionCalled 1,
        CloseActionCalled 1] \<and>
   isActive 0 (two_watchers True True True) \<and>
   \<not> isRunningCancelAction (two_watchers True True True) 0 \<and>
   fst (on_env_cancel (answer True) (asked 0 (two_watchers True True True))) \<and>
   isActive 0 (snd (requestClose_with (on_env_cancel (answer True)) (on_env_close Suc) 0
     (two_watchers True True True))) \<and>
   group_view (snd (requestClose_with (on_env_cancel (answer True)) (on_env_close Suc) 0
     (two_watchers True True True))) = [[0, 1]] \<and>
   isActive 0 (asked 0 (two_watchers True True True)) \<and>
   isRunningCancelAction (asked 0 (two_watchers True True True)) 0 \<and>
   snd (requestClose_with (on_env_cancel (answer True)) (on_env_close Suc) 0
       (asked 0 (two_watchers True True True)))
     = asked 0 (two_watchers True True True)
         \<lparr> calls := calls (asked 0 (two_watchers True True True)) @ [RequestCloseCalled 0] \<rparr>"
proof -
  let ?s = "two_watchers True True True"
  let ?plain = "on_env_cancel (answer False) :: nat world \<Rightarrow> bool \<times> nat world"
  let ?closing = "on_env_close Suc :: nat world \<Rightarrow> nat world"
  have a1: "isActive 1 ?s" and g1: "\<not> isRunningCancelAction ?s 1"
    by (simp_all add: two_watchers_def isActive_def)
  have a0: "isActive 0 (asked 0 ?s)" and g0: "isRunningCancelAction (asked 0 ?s) 0"
    by (simp_all add: two_watchers_def isActive_def asked_def)
  have p: "\<not> fst (?plain (asked 1 ?s))" "isActive 1 (snd (?plain (asked 1 ?s)))"
      "defaultView (snd (?plain (asked 1 ?s)))" "tidy (snd (?plain (asked 1 ?s)))"
    by (simp_all add: on_env_cancel_def answer_def asked_def two_watchers_def isActive_def
        tidy_def)
  have closed: "group_view (removed 1 (snd (?plain (asked 1 ?s)))) = [[0]]"
      "calls (?closing (removed 1 (snd (?plain (asked 1 ?s)))))
        = [Constructed 0, Constructed 1, RequestCloseCalled 1, CancelActionCalled 1,
           CloseActionCalled 1]"
      "env (?closing (removed 1 (snd (?plain (asked 1 ?s))))) = 1"
      "group_view (?closing (removed 1 (snd (?plain (asked 1 ?s)))))
        = group_view (removed 1 (snd (?plain (asked 1 ?s))))"
      "isActive 1 (?closing (removed 1 (snd (?plain (asked 1 ?s)))))
        = isActive 1 (removed 1 (snd (?plain (asked 1 ?s))))"
    by (simp_all add: evaluate_with)
  have d: "\<not> fst (prevent_and_destroy 1 (asked 1 ?s))"
      "\<not> isActive 1 (snd (prevent_and_destroy 1 (asked 1 ?s)))"
      "calls (snd (prevent_and_destroy 1 (asked 1 ?s)))
        = [Constructed 0, Constructed 1, RequestCloseCalled 1, CancelActionCalled 1]"
      "env (snd (prevent_and_destroy 1 (asked 1 ?s))) = 0"
    by (simp_all add: evaluate_with)
  have c: "fst (close_in_listener ?closing 1 (asked 1 ?s))"
      "calls (snd (close_in_listener ?closing 1 (asked 1 ?s)))
        = [Constructed 0, Constructed 1, RequestCloseCalled 1, CancelActionCalled 1,
           CloseActionCalled 1]"
    by (simp_all add: evaluate_with)
  note t1 = requestClose_with_cancels_then_closes
    [OF a1, where cancel = ?plain and closing = ?closing]
  note t2 = requestClose_with_cancels_then_closes
    [OF a1, where cancel = "prevent_and_destroy 1" and closing = ?closing]
  note t3 = requestClose_with_cancels_then_closes
    [OF a1, where cancel = "close_in_listener ?closing 1" and closing = ?closing]
  note t4 = requestClose_with_cancels_then_closes
    [OF a0, where cancel = "on_env_cancel (answer True)" and closing = ?closing]
  have r1: "snd (requestClose_with ?plain ?closing 1 ?s)
      = ?closing (removed 1 (snd (?plain (asked 1 ?s))))"
    and n1: "\<not> isActive 1 (removed 1 (snd (?plain (asked 1 ?s))))"
    using t1 g1 p by blast+
  have r2: "snd (requestClose_with (prevent_and_destroy 1) ?closing 1 ?s)
      = snd (prevent_and_destroy 1 (asked 1 ?s))"
    using t2 g1 d(1,2) by blast
  have r3: "snd (requestClose_with (close_in_listener ?closing 1) ?closing 1 ?s)
      = snd (close_in_listener ?closing 1 (asked 1 ?s))"
    using t3 g1 c(1) by blast
  have b0: "isActive 0 ?s" and h0: "\<not> isRunningCancelAction ?s 0"
    by (simp_all add: two_watchers_def isActive_def)
  have k: "fst (on_env_cancel (answer True) (asked 0 ?s))"
      "groups (snd (on_env_cancel (answer True) (asked 0 ?s))) = groups ?s"
      "elements (snd (on_env_cancel (answer True) (asked 0 ?s))) = elements ?s"
      "group_view ?s = [[0, 1]]"
    by (simp_all add: on_env_cancel_def answer_def asked_def group_view_def two_watchers_def)
  note t5 = requestClose_with_cancels_then_closes
    [OF b0, where cancel = "on_env_cancel (answer True)" and closing = ?closing]
  have r5: "isActive 0 (snd (requestClose_with (on_env_cancel (answer True)) ?closing 0 ?s))"
      "group_view (snd (requestClose_with (on_env_cancel (answer True)) ?closing 0 ?s)) = [[0, 1]]"
    using t5 h0 k by simp_all
  have r4: "snd (requestClose_with (on_env_cancel (answer True)) ?closing 0 (asked 0 ?s))
      = asked 0 ?s\<lparr> calls := calls (asked 0 ?s) @ [RequestCloseCalled 0] \<rparr>"
    using t4 g0 by blast
  show ?thesis
    unfolding r1 r2 r3 r4 using a1 g1 a0 g0 b0 h0 k(1) r5 p closed n1 d c by simp
qed

subsection \<open>C4: Placement of a new watcher\<close>

text \<open>
  C4. In every reachable state a new watcher starts a new group, appended to the group
  sequence and holding only that watcher, if the number of groups is less than
  \<open>allowedNumberOfGroups\<close>; otherwise it is appended to the last group, which is the
  most recently created one (no linked array was allocated after it). In particular,
  with no group yet and \<open>allowedNumberOfGroups = 1\<close>, every sequence of registrations
  ends in a single group, in registration order.
\<close>

theorem InternalCloseWatcher_placement:
  assumes "reachable s"
  shows "(int (length (groups s)) < allowedNumberOfGroups s \<longrightarrow>
            (\<exists>s'. InternalCloseWatcher cancel closing this s = Inr s' \<and>
               group_view s' = group_view s @ [[this]] \<and> isActive this s')) \<and>
         (\<not> int (length (groups s)) < allowedNumberOfGroups s \<longrightarrow>
            (\<exists>s'. InternalCloseWatcher cancel closing this s = Inr s' \<and>
               group_view s' = butlast (group_view s) @ [last (group_view s) @ [this]] \<and>
               isActive this s')) \<and>
         (\<forall>g \<in> set (groups s). g \<le> last (groups s)) \<and>
         (groups s = [] \<and> allowedNumberOfGroups s = 1 \<longrightarrow>
            (\<exists>s'. construct_all ws s = Inr s' \<and>
               group_view s' = (if ws = [] then [] else [map fst ws])))"
proof -
  have i: "invariant s" using assms by (rule reachable_invariant)
  then have "sorted (groups s)" by (simp add: invariant_def)
  then have "\<forall>g \<in> set (groups s). g \<le> last (groups s)"
    by (cases "groups s" rule: rev_cases) (auto simp: sorted_append)
  then show ?thesis
    using i construct_new_group construct_last_group construct_all_from_empty by blast
qed

text \<open>
  A first watcher starts the group; a third joins the running example's group; after a
  touch has raised the allowance it starts a second group.
\<close>

theorem InternalCloseWatcher_placement_witness:
  "reachable (initial (0::nat) True) \<and>
   int (length (groups (initial (0::nat) True))) < allowedNumberOfGroups (initial (0::nat) True) \<and>
   (\<exists>s'. InternalCloseWatcher (answer True) Suc 5 (initial 0 True) = Inr s' \<and>
      group_view s' = [[5]] \<and> isActive 5 s') \<and>
   reachable (two_watchers True True True) \<and>
   \<not> int (length (groups (two_watchers True True True)))
       < allowedNumberOfGroups (two_watchers True True True) \<and>
   (\<exists>s'. InternalCloseWatcher (answer True) Suc 2 (two_watchers True True True) = Inr s' \<and>
      group_view s' = [[0, 1, 2]] \<and> isActive 2 s') \<and>
   reachable (input_event touch (two_watchers True True True)) \<and>
   (\<exists>s'. InternalCloseWatcher (answer True) Suc 2
        (input_event touch (two_watchers True True True)) = Inr s' \<and>
      group_view s' = [[0, 1], [2]] \<and> isActive 2 s') \<and>
   (\<exists>s'. construct_all [(0, answer True, Suc), (1, answer False, Suc), (2, answer True, Suc)]
        (initial 0 True) = Inr s' \<and>
      group_view s' = [[0, 1, 2]])"
proof -
  let ?i = "initial (0::nat) True"
  let ?s = "two_watchers True True True"
  let ?t = "input_event touch ?s"
  have ri: "reachable ?i" by (rule reachable.start)
  have rs: "reachable ?s" by (rule reachable_two_watchers)
  then have rt: "reachable ?t"
    using step.input by (rule reachable.step)
  have fi: "groups ?i = []" "allowedNumberOfGroups ?i = 1" "group_view ?i = []"
    by (simp_all add: initial_def group_view_def)
  have fs: "length (groups ?s) = 1" "allowedNumberOfGroups ?s = 1" "group_view ?s = [[0, 1]]"
    by (simp_all add: two_watchers_def group_view_def)
  have ft: "length (groups ?t) = 1" "allowedNumberOfGroups ?t = 2" "group_view ?t = [[0, 1]]"
    by (simp_all add: two_watchers_def group_view_def input_event_def notify_def touch_def)
  show ?thesis
    using ri rs rt fi fs ft
      InternalCloseWatcher_placement [OF ri, of "answer True" Suc 5
        "[(0, answer True, Suc), (1, answer False, Suc), (2, answer True, Suc)]"]
      InternalCloseWatcher_placement [OF rs, of "answer True" Suc 2]
      InternalCloseWatcher_placement [OF rt, of "answer True" Suc 2]
    by (simp del: construct_all.simps)
qed

subsection \<open>C5: Order inside a group\<close>

text \<open>
  C5 (the code departs from the claim). The claim: a group's order is the registration
  order of its members, also after a dismissal. A is registered, then B; both
  \<open>cancelAction\<close>s return true, so both survive the dismissal. After it the group is
  \<open>[B, A]\<close>: \<open>reverse\<close> has reordered the manager's own array.
\<close>

theorem processCloseWatchers_reorders:
  "construct_all [(0, answer True, Suc), (1, answer True, Suc)] (initial 0 True)
     = Inr (two_watchers True True True) \<and>
   group_view (two_watchers True True True) = [[0, 1]] \<and>
   reachable (snd (processCloseWatchers (two_watchers True True True))) \<and>
   group_view (snd (processCloseWatchers (two_watchers True True True))) = [[1, 0]] \<and>
   isActive 0 (snd (processCloseWatchers (two_watchers True True True))) \<and>
   isActive 1 (snd (processCloseWatchers (two_watchers True True True)))"
proof -
  have "reachable (snd (processCloseWatchers (two_watchers True True True)))"
    using reachable_two_watchers step.dismissal by (rule reachable.step)
  moreover
  have "group_view (two_watchers True True True) = [[0, 1]]"
    and "group_view (snd (processCloseWatchers (two_watchers True True True))) = [[1, 0]]"
    and "isActive 0 (snd (processCloseWatchers (two_watchers True True True)))"
    and "isActive 1 (snd (processCloseWatchers (two_watchers True True True)))"
    by (simp_all add: evaluate)
  ultimately show ?thesis
    using two_watchers_constructed [of True True True] by simp
qed

subsection \<open>C6: The allowed number of groups after a dismissal\<close>



subsection \<open>C7: User activation\<close>

text \<open>
  C7. On a qualifying input event, if \<open>nextUserInteractionAllowsAnewGroup\<close> is true then
  \<open>allowedNumberOfGroups\<close> grows by exactly one, and the flag is false afterwards. A
  second qualifying event leaves \<open>allowedNumberOfGroups\<close> as it is, whether \<open>notify\<close>
  is called again or the aborted listeners no longer deliver the event.
\<close>

theorem notify_increments_once:
  assumes "qualifying e"
  shows "(nextUserInteractionAllowsAnewGroup s \<longrightarrow>
            allowedNumberOfGroups (notify e s) = allowedNumberOfGroups s + 1) \<and>
         (\<not> nextUserInteractionAllowsAnewGroup s \<longrightarrow>
            allowedNumberOfGroups (notify e s) = allowedNumberOfGroups s) \<and>
         \<not> nextUserInteractionAllowsAnewGroup (notify e s) \<and>
         (qualifying e' \<longrightarrow>
            allowedNumberOfGroups (notify e' (notify e s)) = allowedNumberOfGroups (notify e s)) \<and>
         allowedNumberOfGroups (input_event e' (notify e s)) = allowedNumberOfGroups (notify e s)"
  using assms
  by (auto simp: qualifying_def notify_def input_event_def Let_def split: event_interface.splits)

text \<open>
  A trusted touch in the initial state raises the count from one to two and takes the
  flag down; a trusted key press after it leaves the count at two.
\<close>

theorem notify_increments_once_witness:
  "qualifying \<lparr> interface = OtherEvent, isTrusted = True \<rparr> \<and>
   nextUserInteractionAllowsAnewGroup (initial (0::nat) True) \<and>
   allowedNumberOfGroups (initial (0::nat) True) = 1 \<and>
   allowedNumberOfGroups (notify \<lparr> interface = OtherEvent, isTrusted = True \<rparr> (initial (0::nat) True)) = 2 \<and>
   \<not> nextUserInteractionAllowsAnewGroup
       (notify \<lparr> interface = OtherEvent, isTrusted = True \<rparr> (initial (0::nat) True)) \<and>
   allowedNumberOfGroups
     (notify \<lparr> interface = KeyboardEvent ''Enter'', isTrusted = True \<rparr>
       (notify \<lparr> interface = OtherEvent, isTrusted = True \<rparr> (initial (0::nat) True))) = 2"
proof -
  have q: "qualifying \<lparr> interface = OtherEvent, isTrusted = True \<rparr>"
    and q': "qualifying \<lparr> interface = KeyboardEvent ''Enter'', isTrusted = True \<rparr>"
    by (simp_all add: qualifying_def)
  show ?thesis
    using q q' notify_increments_once [OF q, of "initial (0::nat) True"
        "\<lparr> interface = KeyboardEvent ''Enter'', isTrusted = True \<rparr>"]
    by (simp add: initial_def)
qed

subsection \<open>C8: The guard is never reset\<close>

text \<open>
  C8. In every reachable state: \<open>requestClose\<close> on an active watcher leaves its guard
  \<open>isRunningCancelAction\<close> set; no sequence of steps resets a guard that is set;
  \<open>cancelAction\<close> has been called at most once for each watcher; and \<open>requestClose\<close>
  on a watcher whose guard is set returns true and does nothing else (the state
  changes by the ghost record of the call only).
\<close>

theorem guard_never_reset:
  assumes "reachable s"
  shows "(isActive this s \<longrightarrow> isRunningCancelAction (snd (requestClose this s)) this) \<and>
         (\<forall>s'. step\<^sup>*\<^sup>* s s' \<longrightarrow> isRunningCancelAction s this \<longrightarrow>
            isRunningCancelAction s' this) \<and>
         count_list (calls s) (CancelActionCalled this) \<le> 1 \<and>
         (isRunningCancelAction s this \<longrightarrow>
            requestClose this s = (True, s\<lparr> calls := calls s @ [RequestCloseCalled this] \<rparr>))"
proof -
  have i: "invariant s" using assms by (rule reachable_invariant)
  have "count_list (calls s) (CancelActionCalled this) \<le> 1"
    using i by (simp add: invariant_def)
  moreover have "\<forall>s'. step\<^sup>*\<^sup>* s s' \<longrightarrow> isRunningCancelAction s this \<longrightarrow>
      isRunningCancelAction s' this"
    using guard_steps [OF _ i] by blast
  ultimately show ?thesis
    by (simp add: requestClose_eq)
qed

text \<open>
  In the running example A's \<open>cancelAction\<close> returns true, so A stays active with its
  guard set; a second \<open>requestClose\<close> does nothing, and the guard survives a dismissal.
\<close>

theorem guard_never_reset_witness:
  "reachable (snd (requestClose 0 (two_watchers True True True))) \<and>
   isActive 0 (two_watchers True True True) \<and>
   isRunningCancelAction (snd (requestClose 0 (two_watchers True True True))) 0 \<and>
   isActive 0 (snd (requestClose 0 (two_watchers True True True))) \<and>
   count_list (calls (snd (requestClose 0 (two_watchers True True True)))) (CancelActionCalled 0) = 1 \<and>
   requestClose 0 (snd (requestClose 0 (two_watchers True True True)))
     = (True, snd (requestClose 0 (two_watchers True True True))
          \<lparr> calls := [Constructed 0, Constructed 1, RequestCloseCalled 0, CancelActionCalled 0,
               RequestCloseCalled 0] \<rparr>) \<and>
   isRunningCancelAction
     (snd (processCloseWatchers (snd (requestClose 0 (two_watchers True True True))))) 0"
proof -
  let ?s = "two_watchers True True True"
  let ?s1 = "snd (requestClose 0 ?s)"
  have r: "reachable ?s" by (rule reachable_two_watchers)
  have "Constructed 0 \<in> set (calls ?s)" by (simp add: two_watchers_def)
  then have "step ?s ?s1" by (rule step.requestClose)
  with r have r1: "reachable ?s1" by (rule reachable.step)
  have a: "isActive 0 ?s" by (simp add: two_watchers_def isActive_def)
  have eq: "?s1 = cancelled 0 ?s"
    by (simp add: requestClose_eq two_watchers_def isActive_def answer_def)
  have a1: "isActive 0 ?s1"
    using a isActive_cong [of "cancelled 0 ?s" ?s 0] unfolding eq by simp
  have c: "calls ?s1 = [Constructed 0, Constructed 1, RequestCloseCalled 0, CancelActionCalled 0]"
    unfolding eq by (simp add: two_watchers_def)
  have d: "step\<^sup>*\<^sup>* ?s1 (snd (processCloseWatchers ?s1))"
    using step.dismissal by (rule r_into_rtranclp)
  have set: "isRunningCancelAction ?s1 0"
    using guard_never_reset [OF r, of 0] a by blast
  have kept: "isRunningCancelAction (snd (processCloseWatchers ?s1)) 0"
    using guard_never_reset [OF r1, of 0] d set by blast
  have again: "requestClose 0 ?s1 = (True, ?s1\<lparr> calls := calls ?s1 @ [RequestCloseCalled 0] \<rparr>)"
    using guard_never_reset [OF r1, of 0] set by blast
  have once: "count_list (calls ?s1) (CancelActionCalled 0) = 1"
    unfolding c by simp
  show ?thesis
    using r1 a a1 set kept once again unfolding c by simp
qed

subsection \<open>C9: destroy\<close>

text \<open>
  C9. \<open>destroy\<close> is idempotent: in every reachable state, calling it twice leaves the
  same state as calling it once, and on an inactive watcher it changes nothing. A
  destroy removes the watcher from the one group that holds it (at most one does),
  unlinks that group if it became empty, and leaves every other watcher as active as it
  was; no callback runs.
\<close>

theorem destroy_idempotent:
  assumes "reachable s"
  shows "destroy this (destroy this s) = destroy this s \<and>
         (\<not> isActive this s \<longrightarrow> destroy this s = s) \<and>
         \<not> isActive this (destroy this s) \<and>
         (\<forall>w. w \<noteq> this \<longrightarrow> isActive w (destroy this s) = isActive w s) \<and>
         length (filter (\<lambda>ws. this \<in> set ws) (group_view s)) \<le> 1 \<and>
         group_view (destroy this s)
           = filter (\<lambda>ws. ws \<noteq> []) (map (remove1 this) (group_view s)) \<and>
         calls (destroy this s) = calls s \<and> env (destroy this s) = env s"
proof -
  have t: "tidy s" using assms by (rule reachable_tidy)
  then have t': "tidy (destroy this s)" by (rule tidy_destroy)
  have gone: "\<not> isActive this (destroy this s)"
    using t by (simp add: isActive_destroy)
  have "destroy this (destroy this s) = destroy this s"
    using t' gone by (intro destroy_inactive) (simp_all add: tidy_def)
  moreover have "\<not> isActive this s \<longrightarrow> destroy this s = s"
    using t by (simp add: destroy_inactive tidy_def)
  ultimately show ?thesis
    using t gone at_most_one_group [OF t, of this]
    by (simp add: isActive_destroy view_destroy)
qed

text \<open>
  In the running example B is destroyed, which leaves \<open>[[A]]\<close>; destroying A as well
  empties the group, which is unlinked. Watcher \<open>2\<close> was never registered, and
  destroying it changes nothing.
\<close>

theorem destroy_idempotent_witness:
  "reachable (two_watchers True True True) \<and>
   group_view (destroy 1 (two_watchers True True True)) = [[0]] \<and>
   destroy 1 (destroy 1 (two_watchers True True True)) = destroy 1 (two_watchers True True True) \<and>
   \<not> isActive 1 (destroy 1 (two_watchers True True True)) \<and>
   isActive 0 (destroy 1 (two_watchers True True True)) \<and>
   \<not> isActive 2 (two_watchers True True True) \<and>
   destroy 2 (two_watchers True True True) = two_watchers True True True \<and>
   reachable (destroy 1 (two_watchers True True True)) \<and>
   group_view (destroy 0 (destroy 1 (two_watchers True True True))) = []"
proof -
  let ?s = "two_watchers True True True"
  have r: "reachable ?s" by (rule reachable_two_watchers)
  have "Constructed 1 \<in> set (calls ?s)" by (simp add: two_watchers_def)
  then have "step ?s (destroy 1 ?s)" by (rule step.destroy)
  with r have r1: "reachable (destroy 1 ?s)" by (rule reachable.step)
  have v: "group_view ?s = [[0, 1]]"
    by (simp add: two_watchers_def group_view_def)
  have a: "isActive 0 ?s" "\<not> isActive 2 ?s"
    by (simp_all add: two_watchers_def isActive_def)
  have v1: "group_view (destroy 1 ?s) = [[0]]"
    using v destroy_idempotent [OF r, of 1] by simp
  show ?thesis
    using r r1 v v1 a destroy_idempotent [OF r, of 1] destroy_idempotent [OF r, of 2]
      destroy_idempotent [OF r1, of 0]
    by simp
qed

subsection \<open>C10: close\<close>

text \<open>
  C10. \<open>close\<close> on a watcher that is inactive, or when the document has no view, is a
  no-op: the state is unchanged, so \<open>closeAction\<close> was not called. On an active watcher
  of a reachable state with a view, \<open>close\<close> removes it from its group, unlinking the
  group if it became empty, and calls \<open>closeAction\<close> exactly once.
\<close>

theorem close_guarded:
  "(\<not> isActive this s \<or> \<not> defaultView s \<longrightarrow> close this s = s) \<and>
   (reachable s \<and> isActive this s \<and> defaultView s \<longrightarrow>
      \<not> isActive this (close this s) \<and>
      group_view (close this s)
        = filter (\<lambda>ws. ws \<noteq> []) (map (remove1 this) (group_view s)) \<and>
      calls (close this s) = calls s @ [CloseActionCalled this] \<and>
      env (close this s) = closeAction s this (env s))"
  using close_idle [of this s] close_active [of s this] reachable_tidy [of s] by blast

text \<open>
  In the running example, closing B without a view changes nothing; with a view it
  leaves \<open>[[A]]\<close> and one call of B's \<open>closeAction\<close>.
\<close>

theorem close_guarded_witness:
  "\<not> defaultView (two_watchers False True True) \<and>
   close 1 (two_watchers False True True) = two_watchers False True True \<and>
   reachable (two_watchers True True True) \<and> isActive 1 (two_watchers True True True) \<and>
   defaultView (two_watchers True True True) \<and>
   \<not> isActive 1 (close 1 (two_watchers True True True)) \<and>
   group_view (close 1 (two_watchers True True True)) = [[0]] \<and>
   calls (close 1 (two_watchers True True True))
     = [Constructed 0, Constructed 1, CloseActionCalled 1] \<and>
   env (close 1 (two_watchers True True True)) = 1"
proof -
  let ?s = "two_watchers True True True"
  have r: "reachable ?s" by (rule reachable_two_watchers)
  have v: "group_view ?s = [[0, 1]]"
    by (simp add: two_watchers_def group_view_def)
  have a: "isActive 1 ?s"
    by (simp add: two_watchers_def isActive_def)
  have f: "defaultView ?s" "calls ?s = [Constructed 0, Constructed 1]"
      "closeAction ?s 1 (env ?s) = 1" "\<not> defaultView (two_watchers False True True)"
    by (simp_all add: two_watchers_def)
  show ?thesis
    using r v a f close_guarded [of 1 ?s] close_guarded [of 1 "two_watchers False True True"]
    by simp
qed

end
